theory Spec2Isabelle
  imports Complex_Main "HOL-Library.Word"
begin

section \<open>Numbers and containers\<close>

text \<open>
  The program computes with \<open>double\<close> and \<open>int\<close>.

  In the renderer, the ramp builder and the scorer, and in the parameter vectors and probe
  deltas of the controller, a \<open>double\<close> is a real number and an \<open>int\<close> is an integer: there
  rounding, infinities, NaN, signed overflow and a conversion of a \<open>double\<close> beyond the range
  of \<open>int\<close> are outside the model.

  The scores that the controller compares and the numbers that the command line supplies are
  values of the type \<open>double\<close> below: a real number, an infinity or NaN, with the comparisons
  and the arithmetic of IEEE 754 on them (rounding apart). The estimators of \<open>metrics.hpp\<close>
  take any \<open>int\<close>; they are modelled on 32-bit words, where signed arithmetic wraps around in
  two's complement, as the compiled code does (C++ itself leaves signed overflow undefined),
  and \<open>sint\<close> reads a word as the \<open>int\<close> it stands for.

  An index outside a \<open>std::vector\<close> or a \<open>std::string\<close> is undefined behaviour in the source
  and \<open>None\<close> here, as is an exception that leaves a function.
\<close>

definition std_clamp :: "'a::linorder \<Rightarrow> 'a \<Rightarrow> 'a \<Rightarrow> 'a" where
  \<comment> \<open>\<open>std::clamp(v, lo, hi)\<close>\<close>
  "std_clamp v lo hi = (if v < lo then lo else if hi < v then hi else v)"

definition elem_at :: "'a list \<Rightarrow> int \<Rightarrow> 'a option" where
  \<comment> \<open>\<open>xs[i]\<close> with an \<open>int\<close> index\<close>
  "elem_at xs i = (if 0 \<le> i \<and> i < int (length xs) then Some (xs ! nat i) else None)"

definition to_int :: "real \<Rightarrow> int" where
  \<comment> \<open>the cast \<open>(int)x\<close>: truncation towards zero\<close>
  "to_int x = (if 0 \<le> x then \<lfloor>x\<rfloor> else \<lceil>x\<rceil>)"

definition std_round :: "real \<Rightarrow> real" where
  \<comment> \<open>\<open>std::round\<close>: halfway cases away from zero\<close>
  "std_round x = (if 0 \<le> x then of_int \<lfloor>x + 1 / 2\<rfloor> else of_int \<lceil>x - 1 / 2\<rceil>)"

definition int_div :: "int \<Rightarrow> int \<Rightarrow> int" where
  \<comment> \<open>\<open>a / b\<close> on \<open>int\<close>: the quotient truncated towards zero\<close>
  "int_div a b = sgn a * sgn b * (\<bar>a\<bar> div \<bar>b\<bar>)"

subsection \<open>Doubles with infinities and NaN\<close>

datatype double = Fin real | PosInf | NegInf | NaN

fun dlt :: "double \<Rightarrow> double \<Rightarrow> bool" where
  \<comment> \<open>\<open>a < b\<close>\<close>
  "dlt NaN b = False"
| "dlt a NaN = False"
| "dlt (Fin x) (Fin y) = (x < y)"
| "dlt PosInf b = False"
| "dlt a NegInf = False"
| "dlt a b = True"

fun dle :: "double \<Rightarrow> double \<Rightarrow> bool" where
  \<comment> \<open>\<open>a <= b\<close>\<close>
  "dle NaN b = False"
| "dle a NaN = False"
| "dle (Fin x) (Fin y) = (x \<le> y)"
| "dle NegInf b = True"
| "dle a PosInf = True"
| "dle a b = False"

fun dneg :: "double \<Rightarrow> double" where
  "dneg (Fin x) = Fin (- x)"
| "dneg PosInf = NegInf"
| "dneg NegInf = PosInf"
| "dneg NaN = NaN"

fun dadd :: "double \<Rightarrow> double \<Rightarrow> double" where
  \<comment> \<open>\<open>a + b\<close>\<close>
  "dadd NaN b = NaN"
| "dadd a NaN = NaN"
| "dadd (Fin x) (Fin y) = Fin (x + y)"
| "dadd PosInf NegInf = NaN"
| "dadd NegInf PosInf = NaN"
| "dadd PosInf b = PosInf"
| "dadd a PosInf = PosInf"
| "dadd NegInf b = NegInf"
| "dadd a NegInf = NegInf"

definition dsub :: "double \<Rightarrow> double \<Rightarrow> double" where
  \<comment> \<open>\<open>a - b\<close>\<close>
  "dsub a b = dadd a (dneg b)"

fun dmul :: "double \<Rightarrow> double \<Rightarrow> double" where
  \<comment> \<open>\<open>a * b\<close>\<close>
  "dmul NaN b = NaN"
| "dmul a NaN = NaN"
| "dmul (Fin x) (Fin y) = Fin (x * y)"
| "dmul (Fin x) PosInf = (if x = 0 then NaN else if 0 < x then PosInf else NegInf)"
| "dmul (Fin x) NegInf = (if x = 0 then NaN else if 0 < x then NegInf else PosInf)"
| "dmul PosInf (Fin y) = (if y = 0 then NaN else if 0 < y then PosInf else NegInf)"
| "dmul NegInf (Fin y) = (if y = 0 then NaN else if 0 < y then NegInf else PosInf)"
| "dmul PosInf PosInf = PosInf"
| "dmul PosInf NegInf = NegInf"
| "dmul NegInf PosInf = NegInf"
| "dmul NegInf NegInf = PosInf"

definition dclamp :: "double \<Rightarrow> double \<Rightarrow> double \<Rightarrow> double" where
  \<comment> \<open>\<open>std::clamp(v, lo, hi)\<close> on doubles\<close>
  "dclamp v lo hi = (if dlt v lo then lo else if dlt hi v then hi else v)"

definition dmax :: "double \<Rightarrow> double \<Rightarrow> double" where
  \<comment> \<open>\<open>std::max(a, b)\<close> on doubles: \<open>(a < b) ? b : a\<close>\<close>
  "dmax a b = (if dlt a b then b else a)"

subsection \<open>32-bit integers\<close>

type_synonym i32 = "32 word"

section \<open>metrics.hpp\<close>

definition density_ramp :: string where
  "density_ramp = '' .:-=+*#%@''"

fun ramp_rank :: "string \<Rightarrow> nat \<Rightarrow> char \<Rightarrow> nat option" where
  \<comment> \<open>the scan \<open>for (i = 0; i < n; ++i) if (ramp[i] == c) return ...\<close>, from position \<open>i\<close>\<close>
  "ramp_rank [] i c = None"
| "ramp_rank (r # rs) i c = (if r = c then Some i else ramp_rank rs (Suc i) c)"

definition char_density :: "char \<Rightarrow> real" where
  "char_density c =
     (let n = 10 :: nat in
      case ramp_rank density_ramp 0 c of
        Some i \<Rightarrow> real i / real (n - 1)
      | None \<Rightarrow>
          (let uc = (of_char c :: nat)
           in std_clamp ((real uc - 32) / (126 - 32)) 0 1))"

text \<open>The body of the inner loop of \<open>estimate_ascii_quality\<close>: the gradient at offset \<open>off\<close>.\<close>

definition gradient_at :: "string \<Rightarrow> int \<Rightarrow> int \<Rightarrow> real option" where
  "gradient_at buf w off =
     (case elem_at buf (off - 1) of None \<Rightarrow> None | Some c1 \<Rightarrow>
     (case elem_at buf (off + 1) of None \<Rightarrow> None | Some c2 \<Rightarrow>
     (case elem_at buf (off - w) of None \<Rightarrow> None | Some c3 \<Rightarrow>
     (case elem_at buf (off + w) of None \<Rightarrow> None | Some c4 \<Rightarrow>
        (let cx1 = char_density c1; cx2 = char_density c2;
             cy1 = char_density c3; cy2 = char_density c4;
             gx = 0.5 * (cx2 - cx1);
             gy = 0.5 * (cy2 - cy1);
             g = sqrt (gx * gx + gy * gy)
         in Some g)))))"

function quality_row :: "string \<Rightarrow> int \<Rightarrow> int \<Rightarrow> int \<Rightarrow> real \<times> int \<Rightarrow> (real \<times> int) option" where
  \<comment> \<open>\<open>for (x = ...; x < w - 1; ++x)\<close> in row \<open>y\<close>, on the pair \<open>(acc, cnt)\<close>\<close>
  "quality_row buf w y x (acc, cnt) =
     (if x < w - 1 then
        (case gradient_at buf w (y * w + x) of
           None \<Rightarrow> None
         | Some g \<Rightarrow> quality_row buf w y (x + 1) (acc + g, cnt + 1))
      else Some (acc, cnt))"
  by pat_completeness auto
termination
  by (relation "measure (\<lambda>(buf, w, y, x, s). nat (w - 1 - x))") auto

function quality_rows :: "string \<Rightarrow> int \<Rightarrow> int \<Rightarrow> int \<Rightarrow> real \<times> int \<Rightarrow> (real \<times> int) option" where
  \<comment> \<open>\<open>for (y = ...; y < h - 1; ++y)\<close>\<close>
  "quality_rows buf w h y s =
     (if y < h - 1 then
        (case quality_row buf w y 1 s of
           None \<Rightarrow> None
         | Some s' \<Rightarrow> quality_rows buf w h (y + 1) s')
      else Some s)"
  by pat_completeness auto
termination
  by (relation "measure (\<lambda>(buf, w, h, y, s). nat (h - 1 - y))") auto

declare quality_row.simps [simp del] quality_rows.simps [simp del]

definition estimate_ascii_quality :: "string \<Rightarrow> int \<Rightarrow> int \<Rightarrow> real option" where
  "estimate_ascii_quality buf w h =
     (if w < 3 \<or> h < 3 then Some 0.0
      else
        (case quality_rows buf w h 1 (0.0, 0) of
           None \<Rightarrow> None
         | Some (acc, cnt) \<Rightarrow>
             if cnt = 0 then Some 0.0
             else (let avg = acc / real_of_int cnt in Some (std_clamp avg 0.0 1.0))))"

text \<open>
  The two estimators as \<open>metrics.hpp\<close> declares them, with \<open>int\<close> the 32-bit machine integer.
  (The definitions above are \<open>estimate_ascii_quality\<close> on integers without bound, as the
  scorer calls it.)
\<close>

definition gradient_at_i32 :: "string \<Rightarrow> i32 \<Rightarrow> i32 \<Rightarrow> real option" where
  "gradient_at_i32 buf w off =
     (case elem_at buf (sint (off - 1)) of None \<Rightarrow> None | Some c1 \<Rightarrow>
     (case elem_at buf (sint (off + 1)) of None \<Rightarrow> None | Some c2 \<Rightarrow>
     (case elem_at buf (sint (off - w)) of None \<Rightarrow> None | Some c3 \<Rightarrow>
     (case elem_at buf (sint (off + w)) of None \<Rightarrow> None | Some c4 \<Rightarrow>
        (let cx1 = char_density c1; cx2 = char_density c2;
             cy1 = char_density c3; cy2 = char_density c4;
             gx = 0.5 * (cx2 - cx1);
             gy = 0.5 * (cy2 - cy1);
             g = sqrt (gx * gx + gy * gy)
         in Some g)))))"

function quality_row_i32 :: "string \<Rightarrow> i32 \<Rightarrow> i32 \<Rightarrow> i32 \<Rightarrow> real \<times> i32 \<Rightarrow> (real \<times> i32) option" where
  \<comment> \<open>\<open>for (x = ...; x < w - 1; ++x)\<close> in row \<open>y\<close>, on the pair \<open>(acc, cnt)\<close>\<close>
  "quality_row_i32 buf w y x (acc, cnt) =
     (if sint x < sint (w - 1) then
        (case gradient_at_i32 buf w (y * w + x) of
           None \<Rightarrow> None
         | Some g \<Rightarrow> quality_row_i32 buf w y (x + 1) (acc + g, cnt + 1))
      else Some (acc, cnt))"
  by pat_completeness auto
termination
proof (relation "measure (\<lambda>(buf, w, y, x, s). nat (sint (w - 1) - sint x))")
  show "wf (measure (\<lambda>(buf, w, y, x, s). nat (sint (w - 1) - sint x)))"
    by simp
next
  fix buf :: string and w y x :: i32 and acc :: real and cnt :: i32 and g :: real
  assume a: "sint x < sint (w - 1)"
  from sint_lt [of "w - 1"] a have "sint x + 1 < 2 ^ 31" by simp
  moreover from sint_ge [of x] have "- (2 ^ 31) \<le> sint x + 1" by simp
  ultimately have "sint (x + 1) = sint x + 1"
    by (simp add: sint_word_ariths signed_take_bit_int_eq_self)
  with a show "((buf, w, y, x + 1, acc + g, cnt + 1), (buf, w, y, x, acc, cnt))
      \<in> measure (\<lambda>(buf, w, y, x, s). nat (sint (w - 1) - sint x))"
    by simp
qed

function quality_rows_i32 :: "string \<Rightarrow> i32 \<Rightarrow> i32 \<Rightarrow> i32 \<Rightarrow> real \<times> i32 \<Rightarrow> (real \<times> i32) option" where
  \<comment> \<open>\<open>for (y = ...; y < h - 1; ++y)\<close>\<close>
  "quality_rows_i32 buf w h y s =
     (if sint y < sint (h - 1) then
        (case quality_row_i32 buf w y 1 s of
           None \<Rightarrow> None
         | Some s' \<Rightarrow> quality_rows_i32 buf w h (y + 1) s')
      else Some s)"
  by pat_completeness auto
termination
proof (relation "measure (\<lambda>(buf, w, h, y, s). nat (sint (h - 1) - sint y))")
  show "wf (measure (\<lambda>(buf, w, h, y, s). nat (sint (h - 1) - sint y)))"
    by simp
next
  fix buf :: string and w h y :: i32 and s s' :: "real \<times> i32"
  assume a: "sint y < sint (h - 1)"
  from sint_lt [of "h - 1"] a have "sint y + 1 < 2 ^ 31" by simp
  moreover from sint_ge [of y] have "- (2 ^ 31) \<le> sint y + 1" by simp
  ultimately have "sint (y + 1) = sint y + 1"
    by (simp add: sint_word_ariths signed_take_bit_int_eq_self)
  with a show "((buf, w, h, y + 1, s'), (buf, w, h, y, s))
      \<in> measure (\<lambda>(buf, w, h, y, s). nat (sint (h - 1) - sint y))"
    by simp
qed

declare quality_row_i32.simps [simp del] quality_rows_i32.simps [simp del]

definition estimate_ascii_quality_i32 :: "string \<Rightarrow> i32 \<Rightarrow> i32 \<Rightarrow> real option" where
  "estimate_ascii_quality_i32 buf w h =
     (if sint w < 3 \<or> sint h < 3 then Some 0.0
      else
        (case quality_rows_i32 buf w h 1 (0.0, 0) of
           None \<Rightarrow> None
         | Some (acc, cnt) \<Rightarrow>
             if cnt = 0 then Some 0.0
             else (let avg = acc / real_of_int (sint cnt) in Some (std_clamp avg 0.0 1.0))))"

function similarity_loop :: "string \<Rightarrow> string \<Rightarrow> i32 \<Rightarrow> i32 \<Rightarrow> real \<Rightarrow> real option" where
  \<comment> \<open>\<open>for (i = ...; i < cnt; ++i)\<close>, on \<open>acc\<close>\<close>
  "similarity_loop buf ref cnt i acc =
     (if sint i < sint cnt then
        (case elem_at buf (sint i) of None \<Rightarrow> None | Some b \<Rightarrow>
        (case elem_at ref (sint i) of None \<Rightarrow> None | Some c \<Rightarrow>
           (let d = char_density b; r = char_density c; e = d - r
            in similarity_loop buf ref cnt (i + 1) (acc + e * e))))
      else Some acc)"
  by pat_completeness auto
termination
proof (relation "measure (\<lambda>(buf, ref, cnt, i, acc). nat (sint cnt - sint i))")
  show "wf (measure (\<lambda>(buf, ref, cnt, i, acc). nat (sint cnt - sint i)))"
    by simp
next
  fix buf ref :: string and cnt i :: i32 and acc :: real and b c :: char and d r e :: real
  assume a: "sint i < sint cnt"
  from sint_lt [of cnt] a have "sint i + 1 < 2 ^ 31" by simp
  moreover from sint_ge [of i] have "- (2 ^ 31) \<le> sint i + 1" by simp
  ultimately have "sint (i + 1) = sint i + 1"
    by (simp add: sint_word_ariths signed_take_bit_int_eq_self)
  with a show "((buf, ref, cnt, i + 1, acc + e * e), (buf, ref, cnt, i, acc))
      \<in> measure (\<lambda>(buf, ref, cnt, i, acc). nat (sint cnt - sint i))"
    by simp
qed

declare similarity_loop.simps [simp del]

definition estimate_ascii_similarity :: "string \<Rightarrow> string \<Rightarrow> i32 \<Rightarrow> i32 \<Rightarrow> real option" where
  \<comment> \<open>\<open>(int)buf.size()\<close> is the size modulo \<open>2 ^ 32\<close>\<close>
  "estimate_ascii_similarity buf ref w h =
     (if length buf \<noteq> length ref \<or> (word_of_nat (length buf) :: i32) \<noteq> w * h then Some 0.0
      else
        (let cnt = w * h in
         case similarity_loop buf ref cnt 0 0.0 of
           None \<Rightarrow> None
         | Some acc \<Rightarrow>
             if cnt = 0 then Some 0.0
             else
               (let mse = acc / real_of_int (sint cnt);
                    sim = 1.0 - mse;
                    sim = (if sim < 0.0 then 0.0 else sim);
                    sim = (if sim > 1.0 then 1.0 else sim)
                in Some sim)))"

definition moving_average :: "real \<Rightarrow> real \<Rightarrow> real \<Rightarrow> real" where
  "moving_average prev current alpha = alpha * current + (1.0 - alpha) * prev"

section \<open>ascii_torus.cpp: the ramp\<close>

definition DEFAULT_RAMP :: string where
  "DEFAULT_RAMP = '' .:-=+*#%@adkfkajnondvakdfaoivqevlasdkjfacvu''"

definition ramp_glyph :: "string \<Rightarrow> int \<Rightarrow> int \<Rightarrow> char option" where
  \<comment> \<open>the body of the loop of \<open>make_ramp\<close>: the glyph pushed at position \<open>i\<close>\<close>
  "ramp_glyph base ramp_size i =
     (let t = (if ramp_size = 1 then 0.0 else real_of_int i / real_of_int (ramp_size - 1));
          idx = t * (real (length base) - 1);
          i0 = \<lfloor>idx\<rfloor>;
          i1 = min (int (length base) - 1) (i0 + 1);
          u = idx - real_of_int i0
      in if u < 0.5 then elem_at base i0 else elem_at base i1)"

function make_ramp_loop :: "string \<Rightarrow> int \<Rightarrow> int \<Rightarrow> string \<Rightarrow> string option" where
  \<comment> \<open>\<open>for (i = ...; i < ramp_size; ++i) ramp.push_back(c)\<close>\<close>
  "make_ramp_loop base ramp_size i ramp =
     (if i < ramp_size then
        (case ramp_glyph base ramp_size i of
           None \<Rightarrow> None
         | Some c \<Rightarrow> make_ramp_loop base ramp_size (i + 1) (ramp @ [c]))
      else Some ramp)"
  by pat_completeness auto
termination
  by (relation "measure (\<lambda>(base, ramp_size, i, ramp). nat (ramp_size - i))") auto

declare make_ramp_loop.simps [simp del]

definition make_ramp :: "int \<Rightarrow> string option" where
  \<comment> \<open>\<open>ramp.reserve(ramp_size)\<close> throws \<open>std::length_error\<close> for a negative size\<close>
  "make_ramp ramp_size =
     (let base = DEFAULT_RAMP in
      if ramp_size = int (length base) then Some base
      else if ramp_size < 0 then None
      else make_ramp_loop base ramp_size 0 [])"

section \<open>ascii_torus.cpp: the renderer\<close>

text \<open>\<open>TorusModel\<close>; its fields \<open>R\<close> and \<open>r\<close> are \<open>major_R\<close> and \<open>minor_r\<close> here.\<close>

record TorusModel =
  major_R :: real
  minor_r :: real

record FrameStats =
  fps :: real
  ms :: real

definition measure_frame_time :: "real \<Rightarrow> real \<Rightarrow> FrameStats" where
  \<comment> \<open>the two readings of the steady clock, in milliseconds\<close>
  "measure_frame_time start finish =
     (let ms = finish - start;
          fps = (if ms > 0.0 then 1000.0 / ms else 0.0)
      in \<lparr>fps = fps, ms = ms\<rparr>)"

text \<open>
  The body of the inner loop of \<open>render_torus_frame\<close> up to the depth test: the pixel
  \<open>(xp, yp)\<close>, the depth proxy \<open>ooz\<close> and the ramp index \<open>idx\<close> of the surface point at
  \<open>(theta, phi)\<close>.
\<close>

definition torus_sample ::
  "int \<Rightarrow> int \<Rightarrow> real \<Rightarrow> real \<Rightarrow> TorusModel \<Rightarrow> string \<Rightarrow> real \<Rightarrow> real \<Rightarrow> real \<Rightarrow> real
   \<Rightarrow> int \<times> int \<times> real \<times> int" where
  "torus_sample w h A B model ramp gam cam_distance theta phi =
     (let R = major_R model;
          r = minor_r model;
          cosA = cos A; sinA = sin A;
          cosB = cos B; sinB = sin B;
          lx = 0.0; ly = 1.0; lz = - 1.0;
          K1 = 20.0;
          K2 = cam_distance;
          costh = cos theta; sinth = sin theta;
          cosph = cos phi; sinph = sin phi;
          cx = (R + r * costh) * cosph;
          cy = (R + r * costh) * sinph;
          cz = r * sinth;
          x = cx * cosB - cy * sinB;
          y = cx * sinB + cy * cosB;
          z = cz;
          y2 = y * cosA - z * sinA;
          z2 = y * sinA + z * cosA;
          ooz = 1.0 / (z2 + K2);
          xp = to_int (real_of_int (int_div w 2) + K1 * ooz * x);
          yp = to_int (real_of_int (int_div h 2) + K1 * ooz * y2 * 0.5);
          nx = costh * cosph;
          ny = costh * sinph;
          nz = sinth;
          nx_rz = nx * cosB - ny * sinB;
          ny_rz = nx * sinB + ny * cosB;
          nz_rz = nz;
          nny = ny_rz * cosA - nz_rz * sinA;
          nnz = ny_rz * sinA + nz_rz * cosA;
          nnx = nx_rz;
          L = nnx * lx + nny * ly + nnz * lz;
          L = max 0.0 L;
          shade = L powr (if gam > 0.0 then 1.0 / gam else 1.0);
          idx = \<lfloor>shade * (real (length ramp) - 1)\<rfloor>;
          idx = std_clamp idx 0 (int (length ramp) - 1)
      in (xp, yp, ooz, idx))"

text \<open>The depth test that ends the body, on the pair of buffers \<open>(out_buf, zbuf)\<close>.\<close>

definition depth_test ::
  "int \<Rightarrow> int \<Rightarrow> string \<Rightarrow> int \<times> int \<times> real \<times> int \<Rightarrow> string \<times> real list
   \<Rightarrow> (string \<times> real list) option" where
  "depth_test w h ramp smp bufs =
     (let (xp, yp, ooz, idx) = smp; (out_buf, zbuf) = bufs in
      if xp \<ge> 0 \<and> xp < w \<and> yp \<ge> 0 \<and> yp < h then
        (let zb = ooz; off = yp * w + xp in
         case elem_at zbuf off of
           None \<Rightarrow> None
         | Some z \<Rightarrow>
             if zb > z then
               (case elem_at ramp idx of
                  None \<Rightarrow> None
                | Some g \<Rightarrow>
                    if off < int (length out_buf)
                    then Some (out_buf[nat off := g], zbuf[nat off := zb])
                    else None)
             else Some bufs)
      else Some bufs)"

text \<open>
  The two loops over the angles. For an empty ramp \<open>ramp.size() - 1\<close> wraps around and the
  glyph read is out of range, so the body is undefined there.
\<close>

function phi_loop ::
  "int \<Rightarrow> int \<Rightarrow> real \<Rightarrow> real \<Rightarrow> TorusModel \<Rightarrow> string \<Rightarrow> real \<Rightarrow> real \<Rightarrow> real \<Rightarrow> real
   \<Rightarrow> string \<times> real list \<Rightarrow> (string \<times> real list) option" where
  "phi_loop w h A B model ramp gam cam_distance theta phi bufs =
     (if phi < 2 * pi then
        (if ramp = [] then None
         else
           (case depth_test w h ramp (torus_sample w h A B model ramp gam cam_distance theta phi) bufs of
              None \<Rightarrow> None
            | Some bufs' \<Rightarrow> phi_loop w h A B model ramp gam cam_distance theta (phi + 0.02) bufs'))
      else Some bufs)"
  by pat_completeness auto
termination
proof (relation "measure (\<lambda>(w, h, A, B, model, ramp, gam, cam_distance, theta, phi, bufs).
                            nat \<lceil>(2 * pi - phi) / 0.02\<rceil>)")
  show "wf (measure (\<lambda>(w, h, A, B, model, ramp, gam, cam_distance, theta, phi, bufs).
                            nat \<lceil>(2 * pi - phi) / 0.02\<rceil>))"
    by simp
next
  fix phi :: real
  assume "phi < 2 * pi"
  then have pos: "0 < (2 * pi - phi) / 0.02" by simp
  have "(2 * pi - (phi + 0.02)) / 0.02 = (2 * pi - phi) / 0.02 - 1" by (simp add: field_simps)
  then have "\<lceil>(2 * pi - (phi + 0.02)) / 0.02\<rceil> = \<lceil>(2 * pi - phi) / 0.02\<rceil> - 1"
    by (simp only: ceiling_diff_one)
  moreover from pos have "0 < \<lceil>(2 * pi - phi) / 0.02\<rceil>" by (simp add: ceiling_less_iff)
  ultimately have "nat \<lceil>(2 * pi - (phi + 0.02)) / 0.02\<rceil> < nat \<lceil>(2 * pi - phi) / 0.02\<rceil>" by simp
  then show "\<And>w h A B model ramp gam cam_distance theta bufs x2.
       ((w, h, A, B, model, ramp, gam, cam_distance, theta, phi + 2 / 10\<^sup>2, x2 :: string \<times> real list),
        (w :: int, h :: int, A :: real, B :: real, model :: TorusModel, ramp :: string, gam :: real,
         cam_distance :: real, theta :: real, phi, bufs :: string \<times> real list))
       \<in> measure (\<lambda>(w, h, A, B, model, ramp, gam, cam_distance, theta, phi, bufs).
                            nat \<lceil>(2 * pi - phi) / 0.02\<rceil>)"
    by simp
qed

function theta_loop ::
  "int \<Rightarrow> int \<Rightarrow> real \<Rightarrow> real \<Rightarrow> TorusModel \<Rightarrow> string \<Rightarrow> real \<Rightarrow> real \<Rightarrow> real
   \<Rightarrow> string \<times> real list \<Rightarrow> (string \<times> real list) option" where
  "theta_loop w h A B model ramp gam cam_distance theta bufs =
     (if theta < 2 * pi then
        (case phi_loop w h A B model ramp gam cam_distance theta 0.0 bufs of
           None \<Rightarrow> None
         | Some bufs' \<Rightarrow> theta_loop w h A B model ramp gam cam_distance (theta + 0.07) bufs')
      else Some bufs)"
  by pat_completeness auto
termination
proof (relation "measure (\<lambda>(w, h, A, B, model, ramp, gam, cam_distance, theta, bufs).
                            nat \<lceil>(2 * pi - theta) / 0.07\<rceil>)")
  show "wf (measure (\<lambda>(w, h, A, B, model, ramp, gam, cam_distance, theta, bufs).
                            nat \<lceil>(2 * pi - theta) / 0.07\<rceil>))"
    by simp
next
  fix theta :: real
  assume "theta < 2 * pi"
  then have pos: "0 < (2 * pi - theta) / 0.07" by simp
  have "(2 * pi - (theta + 0.07)) / 0.07 = (2 * pi - theta) / 0.07 - 1" by (simp add: field_simps)
  then have "\<lceil>(2 * pi - (theta + 0.07)) / 0.07\<rceil> = \<lceil>(2 * pi - theta) / 0.07\<rceil> - 1"
    by (simp only: ceiling_diff_one)
  moreover from pos have "0 < \<lceil>(2 * pi - theta) / 0.07\<rceil>" by (simp add: ceiling_less_iff)
  ultimately have "nat \<lceil>(2 * pi - (theta + 0.07)) / 0.07\<rceil> < nat \<lceil>(2 * pi - theta) / 0.07\<rceil>"
    by simp
  then show "\<And>w h A B model ramp gam cam_distance bufs x2.
       ((w, h, A, B, model, ramp, gam, cam_distance, theta + 7 / 10\<^sup>2, x2 :: string \<times> real list),
        (w :: int, h :: int, A :: real, B :: real, model :: TorusModel, ramp :: string, gam :: real,
         cam_distance :: real, theta, bufs :: string \<times> real list))
       \<in> measure (\<lambda>(w, h, A, B, model, ramp, gam, cam_distance, theta, bufs).
                            nat \<lceil>(2 * pi - theta) / 0.07\<rceil>)"
    by simp
qed

declare phi_loop.simps [simp del] theta_loop.simps [simp del]

definition render_torus_frame ::
  "string \<Rightarrow> real list \<Rightarrow> int \<Rightarrow> int \<Rightarrow> real \<Rightarrow> real \<Rightarrow> TorusModel \<Rightarrow> string \<Rightarrow> real \<Rightarrow> real
   \<Rightarrow> (string \<times> real list) option" where
  "render_torus_frame out_buf zbuf w h A B model ramp gam cam_distance =
     (let out_buf = replicate (length out_buf) CHR '' '';
          zbuf = replicate (length zbuf) 0.0
      in theta_loop w h A B model ramp gam cam_distance 0.0 (out_buf, zbuf))"

section \<open>mcik_controller.hpp\<close>

record ParamVector =
  resolution_scale :: real
  samples_per_pixel :: int
  gamma :: real
  normal_smooth :: real
  ramp_size :: int

text \<open>\<open>StepSuggestion\<close>; its field \<open>next\<close> is \<open>next_pv\<close> here.\<close>

record StepSuggestion =
  next_pv :: ParamVector
  mode :: string

definition clamp_params :: "ParamVector \<Rightarrow> ParamVector" where
  "clamp_params p =
     p\<lparr>resolution_scale := std_clamp (resolution_scale p) 0.25 1.0,
       samples_per_pixel := std_clamp (samples_per_pixel p) 1 4,
       gamma := std_clamp (gamma p) 0.5 3.0,
       normal_smooth := std_clamp (normal_smooth p) 0.0 1.0,
       ramp_size := std_clamp (ramp_size p) 8 16\<rparr>"

record ProbeDeltas =
  d_scale :: real
  d_spp :: int
  d_gamma :: real
  d_ns :: real
  d_ramp :: int

definition default_deltas :: ProbeDeltas where
  "default_deltas = \<lparr>d_scale = 0.05, d_spp = 1, d_gamma = 0.1, d_ns = 0.1, d_ramp = 2\<rparr>"

text \<open>The local struct \<open>Cand\<close> of \<open>suggest_step_K\<close>.\<close>

record Cand =
  cand_p :: ParamVector
  cand_score :: double
  cand_mode :: string

definition try_update :: "(ParamVector \<Rightarrow> double) \<Rightarrow> Cand \<Rightarrow> ParamVector \<Rightarrow> Cand" where
  \<comment> \<open>\<open>s > best.score\<close> is \<open>best.score < s\<close>\<close>
  "try_update evaluate best p =
     (let p = clamp_params p;
          s = evaluate p
      in if dlt (cand_score best) s then \<lparr>cand_p = p, cand_score = s, cand_mode = ''K''\<rparr> else best)"

definition suggest_step_K :: "ParamVector \<Rightarrow> (ParamVector \<Rightarrow> double) \<Rightarrow> ProbeDeltas \<Rightarrow> StepSuggestion" where
  "suggest_step_K current evaluate d =
     (let base = evaluate current;
          best = \<lparr>cand_p = current, cand_score = base, cand_mode = ''K''\<rparr>;
          best = try_update evaluate best (current\<lparr>resolution_scale := resolution_scale current + d_scale d\<rparr>);
          best = try_update evaluate best (current\<lparr>resolution_scale := resolution_scale current - d_scale d\<rparr>);
          best = try_update evaluate best (current\<lparr>samples_per_pixel := samples_per_pixel current + d_spp d\<rparr>);
          best = try_update evaluate best (current\<lparr>samples_per_pixel := samples_per_pixel current - d_spp d\<rparr>);
          best = try_update evaluate best (current\<lparr>gamma := gamma current + d_gamma d\<rparr>);
          best = try_update evaluate best (current\<lparr>gamma := gamma current - d_gamma d\<rparr>);
          best = try_update evaluate best (current\<lparr>normal_smooth := normal_smooth current + d_ns d\<rparr>);
          best = try_update evaluate best (current\<lparr>normal_smooth := normal_smooth current - d_ns d\<rparr>);
          best = try_update evaluate best (current\<lparr>ramp_size := ramp_size current + d_ramp d\<rparr>);
          best = try_update evaluate best (current\<lparr>ramp_size := ramp_size current - d_ramp d\<rparr>)
      in \<lparr>next_pv = cand_p best, mode = cand_mode best\<rparr>)"

definition try_pair ::
  "ParamVector \<Rightarrow> (ParamVector \<Rightarrow> double) \<Rightarrow> (ParamVector \<Rightarrow> ParamVector) \<Rightarrow> (ParamVector \<Rightarrow> ParamVector) \<Rightarrow>
   double \<times> StepSuggestion \<Rightarrow> double \<times> StepSuggestion" where
  \<comment> \<open>the lambda \<open>try_pair\<close>, on the captured pair \<open>(bestScore, best)\<close>\<close>
  "try_pair current evaluate apply_a apply_b st =
     (let (bestScore, best) = st;
          pa = clamp_params (apply_a current);
          pb = clamp_params (apply_b current);
          pab = clamp_params (apply_b pa);
          s0 = evaluate current;
          sa = evaluate pa;
          sb = evaluate pb;
          sab = evaluate pab;
          delta_a = dsub sa s0;
          delta_b = dsub sb s0;
          delta_ab = dsub sab s0;
          synergy = dsub delta_ab (dadd delta_a delta_b)
      in if dlt (Fin 0.0) synergy \<and> dlt bestScore sab
         then (sab, \<lparr>next_pv = pab, mode = ''K+H''\<rparr>)
         else (bestScore, best))"

definition suggest_step_KH :: "ParamVector \<Rightarrow> (ParamVector \<Rightarrow> double) \<Rightarrow> ProbeDeltas \<Rightarrow> StepSuggestion" where
  "suggest_step_KH current evaluate d =
     (let bestK = suggest_step_K current evaluate d;
          bestScore = evaluate (next_pv bestK);
          st = (bestScore, bestK);
          st = try_pair current evaluate
                 (\<lambda>p. p\<lparr>resolution_scale := resolution_scale p + d_scale d\<rparr>)
                 (\<lambda>p. p\<lparr>samples_per_pixel := samples_per_pixel p + d_spp d\<rparr>) st;
          st = try_pair current evaluate
                 (\<lambda>p. p\<lparr>gamma := gamma p + d_gamma d\<rparr>)
                 (\<lambda>p. p\<lparr>normal_smooth := normal_smooth p + d_ns d\<rparr>) st;
          st = try_pair current evaluate
                 (\<lambda>p. p\<lparr>resolution_scale := resolution_scale p - d_scale d\<rparr>)
                 (\<lambda>p. p\<lparr>gamma := gamma p + d_gamma d\<rparr>) st
      in snd st)"

definition suggest_step :: "ParamVector \<Rightarrow> (ParamVector \<Rightarrow> double) \<Rightarrow> bool \<Rightarrow> StepSuggestion" where
  "suggest_step current evaluate useH =
     (if useH then suggest_step_KH current evaluate default_deltas
      else suggest_step_K current evaluate default_deltas)"

definition in_domain :: "ParamVector \<Rightarrow> bool" where
  \<comment> \<open>the domains that \<open>clamp_params\<close> enforces\<close>
  "in_domain p \<longleftrightarrow>
     0.25 \<le> resolution_scale p \<and> resolution_scale p \<le> 1.0 \<and>
     1 \<le> samples_per_pixel p \<and> samples_per_pixel p \<le> 4 \<and>
     0.5 \<le> gamma p \<and> gamma p \<le> 3.0 \<and>
     0.0 \<le> normal_smooth p \<and> normal_smooth p \<le> 1.0 \<and>
     8 \<le> ramp_size p \<and> ramp_size p \<le> 16"

section \<open>ascii_torus.cpp: the scorer\<close>

text \<open>
  \<open>evaluate_score\<close> reads the steady clock before and after the render; the two readings, in
  milliseconds, are the argument \<open>clock\<close>.
\<close>

definition evaluate_score ::
  "ParamVector \<Rightarrow> real \<Rightarrow> real \<Rightarrow> TorusModel \<Rightarrow> int \<Rightarrow> int \<Rightarrow> int \<Rightarrow> real \<Rightarrow> real \<Rightarrow> real
   \<Rightarrow> real \<times> real \<Rightarrow> real option" where
  "evaluate_score pv A B torus base_w base_h target_fps w_fps w_quality cam_distance clock =
     (let w = max 10 (to_int (std_round (real_of_int base_w * resolution_scale pv)));
          h = max 10 (to_int (std_round (real_of_int base_h * resolution_scale pv)))
      in case make_ramp (ramp_size pv) of
           None \<Rightarrow> None
         | Some ramp \<Rightarrow>
             (let buf = replicate (nat (w * h)) CHR '' '';
                  zb = replicate (nat (w * h)) 0.0;
                  (t0, t1) = clock
              in case render_torus_frame buf zb w h A B torus ramp (gamma pv) cam_distance of
                   None \<Rightarrow> None
                 | Some (buf, zb) \<Rightarrow>
                     (let st = measure_frame_time t0 t1 in
                      case estimate_ascii_quality buf w h of
                        None \<Rightarrow> None
                      | Some q \<Rightarrow>
                          (let fps_norm = min (fps st / real_of_int (max 1 target_fps)) 1.0;
                               score = w_fps * fps_norm + w_quality * q
                           in Some score))))"

section \<open>ascii_torus.cpp: the command line\<close>

text \<open>
  \<open>RenderParams\<close>; each field \<open>f\<close> is \<open>rp_f\<close> here. Its \<open>double\<close> fields hold whatever
  \<open>std::stod\<close> returns, infinities and NaN included.
\<close>

record RenderParams =
  rp_base_width :: int
  rp_base_height :: int
  rp_resolution_scale :: double
  rp_samples_per_pixel :: int
  rp_gamma :: double
  rp_normal_smooth :: double
  rp_ramp_size :: int
  rp_target_fps :: int
  rp_mode :: string
  rp_frames :: int
  rp_controller :: string
  rp_ctrl_interval :: int
  rp_w_fps :: double
  rp_w_quality :: double
  rp_torus_R :: double
  rp_torus_r :: double
  rp_cam_distance :: double
  rp_log_csv :: string

definition default_params :: RenderParams where
  "default_params =
     \<lparr>rp_base_width = 80, rp_base_height = 24, rp_resolution_scale = Fin 1.0,
      rp_samples_per_pixel = 1, rp_gamma = Fin 1.0, rp_normal_smooth = Fin 0.0, rp_ramp_size = 12,
      rp_target_fps = 30, rp_mode = ''interactive'', rp_frames = 300, rp_controller = ''off'',
      rp_ctrl_interval = 10, rp_w_fps = Fin 0.5, rp_w_quality = Fin 0.5, rp_torus_R = Fin 2.5,
      rp_torus_r = Fin 0.30, rp_cam_distance = Fin 10.0, rp_log_csv = []\<rparr>"

text \<open>
  The loop of \<open>parse_args\<close> over the arguments that are left. \<open>std::stod\<close> and \<open>std::stoi\<close>
  are parameters; \<open>None\<close> is the exception they throw, which leaves \<open>parse_args\<close>. A flag in the
  last position has no value to read and changes nothing.
\<close>

fun parse_loop ::
  "(string \<Rightarrow> double option) \<Rightarrow> (string \<Rightarrow> int option) \<Rightarrow> string list \<Rightarrow> RenderParams
   \<Rightarrow> RenderParams option" where
  "parse_loop stod stoi [] params = Some params"
| "parse_loop stod stoi [a] params = Some params"
| "parse_loop stod stoi (a # v # rest) params =
     (
      if a = ''--resolution-scale'' then
          (case stod v of None \<Rightarrow> None
           | Some x \<Rightarrow> parse_loop stod stoi rest (params\<lparr>rp_resolution_scale := x\<rparr>))
      else if a = ''--samples-per-pixel'' then
          (case stoi v of None \<Rightarrow> None
           | Some x \<Rightarrow> parse_loop stod stoi rest (params\<lparr>rp_samples_per_pixel := x\<rparr>))
      else if a = ''--gamma'' then
          (case stod v of None \<Rightarrow> None
           | Some x \<Rightarrow> parse_loop stod stoi rest (params\<lparr>rp_gamma := x\<rparr>))
      else if a = ''--normal-smooth'' then
          (case stod v of None \<Rightarrow> None
           | Some x \<Rightarrow> parse_loop stod stoi rest (params\<lparr>rp_normal_smooth := x\<rparr>))
      else if a = ''--ramp-size'' then
          (case stoi v of None \<Rightarrow> None
           | Some x \<Rightarrow> parse_loop stod stoi rest (params\<lparr>rp_ramp_size := x\<rparr>))
      else if a = ''--target-fps'' then
          (case stoi v of None \<Rightarrow> None
           | Some x \<Rightarrow> parse_loop stod stoi rest (params\<lparr>rp_target_fps := x\<rparr>))
      else if a = ''--mode'' then
          parse_loop stod stoi rest (params\<lparr>rp_mode := v\<rparr>)
      else if a = ''--frames'' then
          (case stoi v of None \<Rightarrow> None
           | Some x \<Rightarrow> parse_loop stod stoi rest (params\<lparr>rp_frames := x\<rparr>))
      else if a = ''--controller'' then
          parse_loop stod stoi rest (params\<lparr>rp_controller := v\<rparr>)
      else if a = ''--ctrl-interval'' then
          (case stoi v of None \<Rightarrow> None
           | Some x \<Rightarrow> parse_loop stod stoi rest (params\<lparr>rp_ctrl_interval := x\<rparr>))
      else if a = ''--w-fps'' then
          (case stod v of None \<Rightarrow> None
           | Some x \<Rightarrow> parse_loop stod stoi rest (params\<lparr>rp_w_fps := x\<rparr>))
      else if a = ''--w-quality'' then
          (case stod v of None \<Rightarrow> None
           | Some x \<Rightarrow> parse_loop stod stoi rest (params\<lparr>rp_w_quality := x\<rparr>))
      else if a = ''--torus-R'' then
          (case stod v of None \<Rightarrow> None
           | Some x \<Rightarrow> parse_loop stod stoi rest (params\<lparr>rp_torus_R := x\<rparr>))
      else if a = ''--torus-r'' then
          (case stod v of None \<Rightarrow> None
           | Some x \<Rightarrow> parse_loop stod stoi rest (params\<lparr>rp_torus_r := x\<rparr>))
      else if a = ''--cam-dist'' then
          (case stod v of None \<Rightarrow> None
           | Some x \<Rightarrow> parse_loop stod stoi rest (params\<lparr>rp_cam_distance := x\<rparr>))
      else if a = ''--log-csv'' then
          parse_loop stod stoi rest (params\<lparr>rp_log_csv := v\<rparr>)
      else parse_loop stod stoi (v # rest) params)"

definition parse_args_clamp :: "RenderParams \<Rightarrow> RenderParams" where
  \<comment> \<open>the statements of \<open>parse_args\<close> after its loop; the first ten assign ten different fields\<close>
  "parse_args_clamp params =
     (let params = params
            \<lparr>rp_resolution_scale := dclamp (rp_resolution_scale params) (Fin 0.25) (Fin 1.0),
             rp_samples_per_pixel := std_clamp (rp_samples_per_pixel params) 1 4,
             rp_gamma := dclamp (rp_gamma params) (Fin 0.5) (Fin 3.0),
             rp_normal_smooth := dclamp (rp_normal_smooth params) (Fin 0.0) (Fin 1.0),
             rp_ramp_size := std_clamp (rp_ramp_size params) 8 16,
             rp_target_fps := max 1 (rp_target_fps params),
             rp_ctrl_interval := max 1 (rp_ctrl_interval params),
             rp_cam_distance := dmax (Fin 0.5) (rp_cam_distance params),
             rp_torus_R := dmax (Fin 0.1) (rp_torus_R params),
             rp_torus_r := dmax (Fin 0.05) (rp_torus_r params)\<rparr>;
          params = (if dle (rp_torus_R params) (rp_torus_r params)
                    then params\<lparr>rp_torus_r := dmax (Fin 0.05) (dmul (rp_torus_R params) (Fin 0.4))\<rparr>
                    else params);
          s = dadd (rp_w_fps params) (rp_w_quality params)
      in if dle s (Fin 0.0) then params\<lparr>rp_w_fps := Fin 0.5, rp_w_quality := Fin 0.5\<rparr> else params)"

definition parse_args ::
  "(string \<Rightarrow> double option) \<Rightarrow> (string \<Rightarrow> int option) \<Rightarrow> string list \<Rightarrow> RenderParams
   \<Rightarrow> RenderParams option" where
  \<comment> \<open>\<open>argv[0]\<close> is skipped\<close>
  "parse_args stod stoi argv params =
     (case parse_loop stod stoi (tl argv) params of
        None \<Rightarrow> None
      | Some params \<Rightarrow> Some (parse_args_clamp params))"

definition stod_demo :: "string \<Rightarrow> double option" where
  \<comment> \<open>what \<open>std::stod\<close> returns on three strings; on everything else this one throws\<close>
  "stod_demo s =
     (if s = ''1'' then Some (Fin 1) else if s = ''5'' then Some (Fin 5)
      else if s = ''inf'' then Some PosInf else None)"

definition nan_score :: "ParamVector \<Rightarrow> double" where
  \<comment> \<open>a scoring function whose score is NaN\<close>
  "nan_score p = NaN"

definition ramp_score :: "ParamVector \<Rightarrow> double" where
  \<comment> \<open>a scoring function that prefers long ramps\<close>
  "ramp_score p = Fin (real_of_int (ramp_size p))"

text \<open>The ten probes of \<open>suggest_step_K\<close>, in the order in which it tries them.\<close>

definition K_probes :: "ParamVector \<Rightarrow> ProbeDeltas \<Rightarrow> ParamVector list" where
  "K_probes current d =
    [current\<lparr>resolution_scale := resolution_scale current + d_scale d\<rparr>,
     current\<lparr>resolution_scale := resolution_scale current - d_scale d\<rparr>,
     current\<lparr>samples_per_pixel := samples_per_pixel current + d_spp d\<rparr>,
     current\<lparr>samples_per_pixel := samples_per_pixel current - d_spp d\<rparr>,
     current\<lparr>gamma := gamma current + d_gamma d\<rparr>,
     current\<lparr>gamma := gamma current - d_gamma d\<rparr>,
     current\<lparr>normal_smooth := normal_smooth current + d_ns d\<rparr>,
     current\<lparr>normal_smooth := normal_smooth current - d_ns d\<rparr>,
     current\<lparr>ramp_size := ramp_size current + d_ramp d\<rparr>,
     current\<lparr>ramp_size := ramp_size current - d_ramp d\<rparr>]"

definition pv_default :: ParamVector where
  \<comment> \<open>the defaults of \<open>RenderParams\<close>\<close>
  "pv_default =
     \<lparr>resolution_scale = 1.0, samples_per_pixel = 1, gamma = 1.0, normal_smooth = 0.0, ramp_size = 12\<rparr>"

definition torus_default :: TorusModel where
  "torus_default = \<lparr>major_R = 2.5, minor_r = 0.30\<rparr>"

section \<open>The ramp\<close>

text \<open>
  Claim C6. \<open>make_ramp\<close> is a function of \<open>ramp_size\<close> alone, so equal sizes give equal
  results, and at the length of the master ramp \<open>DEFAULT_RAMP\<close> it returns the master ramp
  itself.
\<close>

theorem make_ramp_pure_and_native:
  "(n = m \<longrightarrow> make_ramp n = make_ramp m)
   \<and> make_ramp (int (length DEFAULT_RAMP)) = Some DEFAULT_RAMP"
  by (simp add: make_ramp_def)

theorem make_ramp_pure_and_native_witness:
  "(16::int) = 16 \<and> make_ramp 16 = make_ramp 16
   \<and> make_ramp (int (length DEFAULT_RAMP)) = Some DEFAULT_RAMP"
  using make_ramp_pure_and_native [of 16 16] by simp

text \<open>
  Claim C3. For a ramp size from 8 to 16 the ramp should run from the darkest glyph to the
  brightest, with \<open>char_density\<close> nondecreasing along it. The master ramp is commented as
  having length 10 and has 44 characters, and the resampled ramps are not ordered: at size 16
  (the reference frame) the glyph \<open>@\<close> of density 1 is followed by \<open>d\<close>, and at size 12 (the
  default) the glyph \<open>%\<close> is followed by \<open>k\<close>.
\<close>

theorem make_ramp_not_ordered:
  "length DEFAULT_RAMP = 44
   \<and> make_ramp 16 = Some '' -*@dkndkavvakau''
   \<and> \<not> sorted (map char_density '' -*@dkndkavvakau'')
   \<and> make_ramp 12 = Some '' =%kjdkoesfu''
   \<and> \<not> sorted (map char_density '' =%kjdkoesfu'')"
proof -
  have a: "make_ramp 16 = Some '' -*@dkndkavvakau''" by code_simp
  have b: "make_ramp 12 = Some '' =%kjdkoesfu''" by code_simp
  have c: "char_density CHR ''@'' = 1" "char_density CHR ''d'' = 34 / 47"
    "char_density CHR ''%'' = 8 / 9" "char_density CHR ''k'' = 75 / 94"
    by (simp_all add: char_density_def density_ramp_def std_clamp_def)
  have d: "\<not> sorted (map char_density '' -*@dkndkavvakau'')"
  proof
    assume "sorted (map char_density '' -*@dkndkavvakau'')"
    from sorted_nth_mono [OF this, of 3 4]
    have "char_density CHR ''@'' \<le> char_density CHR ''d''" by simp
    then show False by (simp add: c)
  qed
  have e: "\<not> sorted (map char_density '' =%kjdkoesfu'')"
  proof
    assume "sorted (map char_density '' =%kjdkoesfu'')"
    from sorted_nth_mono [OF this, of 2 3]
    have "char_density CHR ''%'' \<le> char_density CHR ''k''" by simp
    then show False by (simp add: c)
  qed
  have l: "length DEFAULT_RAMP = 44" by (simp add: DEFAULT_RAMP_def)
  from l a b d e show ?thesis by blast
qed

section \<open>The renderer\<close>

lemma std_clamp_range: "lo \<le> hi \<Longrightarrow> lo \<le> std_clamp v lo hi \<and> std_clamp v lo hi \<le> hi"
  by (auto simp add: std_clamp_def)

lemma torus_sample_idx:
  assumes "ramp \<noteq> []"
    and "torus_sample w h A B model ramp gam cam_distance theta phi = (xp, yp, ooz, idx)"
  shows "0 \<le> idx \<and> idx < int (length ramp)"
proof -
  from assms(1) have "(0::int) \<le> int (length ramp) - 1" by (cases ramp) simp_all
  from std_clamp_range [OF this] assms(2) show ?thesis
    by (auto simp add: torus_sample_def Let_def)
qed

lemma offset_in_frame:
  fixes w h xp yp :: int
  assumes "0 \<le> xp" "xp < w" "0 \<le> yp" "yp < h"
  shows "0 \<le> yp * w + xp \<and> yp * w + xp < w * h"
proof -
  from assms have w: "0 < w" by linarith
  from assms have "yp + 1 \<le> h" by simp
  with w have "(yp + 1) * w \<le> h * w" by (intro mult_right_mono) simp_all
  then have "yp * w + w \<le> w * h" by (simp add: algebra_simps)
  moreover from assms w have "0 \<le> yp * w" by simp
  ultimately show ?thesis using assms by linarith
qed

lemma depth_test_cases:
  assumes "depth_test w h ramp (xp, yp, ooz, idx) (out_buf, zbuf) = Some (out_buf', zbuf')"
  shows "(out_buf' = out_buf \<and> zbuf' = zbuf
          \<and> \<not> (0 \<le> xp \<and> xp < w \<and> 0 \<le> yp \<and> yp < h \<and> zbuf ! nat (yp * w + xp) < ooz))
       \<or> (0 \<le> xp \<and> xp < w \<and> 0 \<le> yp \<and> yp < h
          \<and> 0 \<le> yp * w + xp \<and> yp * w + xp < int (length zbuf) \<and> yp * w + xp < int (length out_buf)
          \<and> 0 \<le> idx \<and> idx < int (length ramp)
          \<and> zbuf ! nat (yp * w + xp) < ooz
          \<and> out_buf' = out_buf[nat (yp * w + xp) := ramp ! nat idx]
          \<and> zbuf' = zbuf[nat (yp * w + xp) := ooz])"
  using assms
  by (auto simp add: depth_test_def elem_at_def Let_def split: if_splits option.splits)

lemma depth_test_total:
  assumes "w * h \<le> int (length out_buf)" "w * h \<le> int (length zbuf)"
    and "0 \<le> idx" "idx < int (length ramp)"
  shows "\<exists>bufs'. depth_test w h ramp (xp, yp, ooz, idx) (out_buf, zbuf) = Some bufs'"
proof (cases "0 \<le> xp \<and> xp < w \<and> 0 \<le> yp \<and> yp < h")
  case True
  with offset_in_frame [of xp w yp h] assms show ?thesis
    by (simp add: depth_test_def elem_at_def Let_def)
next
  case False
  then show ?thesis by (auto simp add: depth_test_def Let_def)
qed

lemma depth_test_length:
  assumes "depth_test w h ramp smp bufs = Some bufs'"
  shows "length (fst bufs') = length (fst bufs) \<and> length (snd bufs') = length (snd bufs)"
proof -
  obtain xp yp ooz idx where smp: "smp = (xp, yp, ooz, idx)" by (cases smp) auto
  obtain ob zb where b: "bufs = (ob, zb)" by (cases bufs) auto
  obtain ob' zb' where b': "bufs' = (ob', zb')" by (cases bufs') auto
  from depth_test_cases [of w h ramp xp yp ooz idx ob zb ob' zb'] assms
  show ?thesis unfolding smp b b' by auto
qed

lemma depth_test_mono:
  assumes "depth_test w h ramp smp bufs = Some bufs'" and "i < length (snd bufs)"
  shows "snd bufs ! i \<le> snd bufs' ! i"
proof -
  obtain xp yp ooz idx where smp: "smp = (xp, yp, ooz, idx)" by (cases smp) auto
  obtain ob zb where b: "bufs = (ob, zb)" by (cases bufs) auto
  obtain ob' zb' where b': "bufs' = (ob', zb')" by (cases bufs') auto
  from depth_test_cases [of w h ramp xp yp ooz idx ob zb ob' zb'] assms
  show ?thesis unfolding smp b b' by (auto simp add: nth_list_update)
qed

lemma depth_test_alphabet:
  assumes "depth_test w h ramp smp bufs = Some bufs'"
    and "set (fst bufs) \<subseteq> insert c (set ramp)"
  shows "set (fst bufs') \<subseteq> insert c (set ramp)"
proof -
  obtain xp yp ooz idx where smp: "smp = (xp, yp, ooz, idx)" by (cases smp) auto
  obtain ob zb where b: "bufs = (ob, zb)" by (cases bufs) auto
  obtain ob' zb' where b': "bufs' = (ob', zb')" by (cases bufs') auto
  from depth_test_cases [of w h ramp xp yp ooz idx ob zb ob' zb'] assms
  consider "ob' = ob" | "0 \<le> idx \<and> idx < int (length ramp) \<and> ob' = ob[nat (yp * w + xp) := ramp ! nat idx]"
    unfolding smp b b' by auto
  then show ?thesis
  proof cases
    case 1
    with assms(2) show ?thesis unfolding b b' by simp
  next
    case 2
    then have "nat idx < length ramp" by linarith
    then have "ramp ! nat idx \<in> set ramp" by simp
    moreover have "set ob' \<subseteq> insert (ramp ! nat idx) (set ob)"
      using 2 by (simp add: set_update_subset_insert)
    ultimately show ?thesis using assms(2) unfolding b b' by auto
  qed
qed

lemma phi_loop_preserves:
  "(\<And>smp b b'. P b \<Longrightarrow> depth_test w h ramp smp b = Some b' \<Longrightarrow> P b') \<Longrightarrow> P bufs \<Longrightarrow>
   phi_loop w h A B model ramp gam cam_distance theta phi bufs = Some bufs' \<Longrightarrow> P bufs'"
proof (induction w h A B model ramp gam cam_distance theta phi bufs rule: phi_loop.induct)
  case (1 w h A B model ramp gam cam_distance theta phi bufs)
  show ?case
  proof (cases "phi < 2 * pi")
    case False
    with "1.prems"(3) have "bufs' = bufs"
      by (simp add: phi_loop.simps [of w h A B model ramp gam cam_distance theta phi bufs])
    with "1.prems"(2) show ?thesis by simp
  next
    case True
    with "1.prems"(3) obtain b1 where ne: "ramp \<noteq> []"
      and d: "depth_test w h ramp (torus_sample w h A B model ramp gam cam_distance theta phi) bufs = Some b1"
      and r: "phi_loop w h A B model ramp gam cam_distance theta (phi + 0.02) b1 = Some bufs'"
      by (simp add: phi_loop.simps [of w h A B model ramp gam cam_distance theta phi bufs]
            split: if_splits option.splits)
    from "1.prems"(1) [OF "1.prems"(2) d] have "P b1" .
    from "1.IH" [OF True ne d "1.prems"(1) this r] show ?thesis .
  qed
qed

lemma theta_loop_preserves:
  "(\<And>smp b b'. P b \<Longrightarrow> depth_test w h ramp smp b = Some b' \<Longrightarrow> P b') \<Longrightarrow> P bufs \<Longrightarrow>
   theta_loop w h A B model ramp gam cam_distance theta bufs = Some bufs' \<Longrightarrow> P bufs'"
proof (induction w h A B model ramp gam cam_distance theta bufs rule: theta_loop.induct)
  case (1 w h A B model ramp gam cam_distance theta bufs)
  show ?case
  proof (cases "theta < 2 * pi")
    case False
    with "1.prems"(3) have "bufs' = bufs"
      by (simp add: theta_loop.simps [of w h A B model ramp gam cam_distance theta bufs])
    with "1.prems"(2) show ?thesis by simp
  next
    case True
    with "1.prems"(3) obtain b1 where
      d: "phi_loop w h A B model ramp gam cam_distance theta 0.0 bufs = Some b1"
      and r: "theta_loop w h A B model ramp gam cam_distance (theta + 0.07) b1 = Some bufs'"
      by (simp add: theta_loop.simps [of w h A B model ramp gam cam_distance theta bufs]
            split: if_splits option.splits)
    from phi_loop_preserves [of P w h ramp bufs A B model gam cam_distance theta "0.0" b1, OF "1.prems"(1) "1.prems"(2) d]
    have "P b1" .
    from "1.IH" [OF True d "1.prems"(1) this r] show ?thesis .
  qed
qed

lemma phi_loop_total:
  "ramp \<noteq> [] \<Longrightarrow> w * h \<le> int (length (fst bufs)) \<Longrightarrow> w * h \<le> int (length (snd bufs)) \<Longrightarrow>
   \<exists>bufs'. phi_loop w h A B model ramp gam cam_distance theta phi bufs = Some bufs'"
proof (induction w h A B model ramp gam cam_distance theta phi bufs rule: phi_loop.induct)
  case (1 w h A B model ramp gam cam_distance theta phi bufs)
  show ?case
  proof (cases "phi < 2 * pi")
    case False
    then show ?thesis
      by (simp add: phi_loop.simps [of w h A B model ramp gam cam_distance theta phi bufs])
  next
    case True
    obtain xp yp ooz idx where
      smp: "torus_sample w h A B model ramp gam cam_distance theta phi = (xp, yp, ooz, idx)"
      by (cases "torus_sample w h A B model ramp gam cam_distance theta phi") auto
    obtain ob zb where b: "bufs = (ob, zb)" by (cases bufs) auto
    from torus_sample_idx [OF "1.prems"(1) smp] have idx: "0 \<le> idx" "idx < int (length ramp)" by simp_all
    from depth_test_total [of w h ob zb idx ramp xp yp ooz] "1.prems"(2,3) idx
    obtain b1 where d: "depth_test w h ramp (torus_sample w h A B model ramp gam cam_distance theta phi) bufs = Some b1"
      unfolding smp b by auto
    from depth_test_length [OF d] "1.prems"(2,3)
    have l: "w * h \<le> int (length (fst b1))" "w * h \<le> int (length (snd b1))" by simp_all
    from "1.IH" [OF True "1.prems"(1) d "1.prems"(1) l]
    obtain b2 where "phi_loop w h A B model ramp gam cam_distance theta (phi + 0.02) b1 = Some b2" by auto
    with True "1.prems"(1) d show ?thesis
      by (simp add: phi_loop.simps [of w h A B model ramp gam cam_distance theta phi bufs])
  qed
qed

lemma theta_loop_total:
  "ramp \<noteq> [] \<Longrightarrow> w * h \<le> int (length (fst bufs)) \<Longrightarrow> w * h \<le> int (length (snd bufs)) \<Longrightarrow>
   \<exists>bufs'. theta_loop w h A B model ramp gam cam_distance theta bufs = Some bufs'"
proof (induction w h A B model ramp gam cam_distance theta bufs rule: theta_loop.induct)
  case (1 w h A B model ramp gam cam_distance theta bufs)
  show ?case
  proof (cases "theta < 2 * pi")
    case False
    then show ?thesis
      by (simp add: theta_loop.simps [of w h A B model ramp gam cam_distance theta bufs])
  next
    case True
    from phi_loop_total [OF "1.prems", of A B model gam cam_distance theta "0.0"]
    obtain b1 where d: "phi_loop w h A B model ramp gam cam_distance theta 0.0 bufs = Some b1" by auto
    have "length (fst b1) = length (fst bufs) \<and> length (snd b1) = length (snd bufs)"
      by (rule phi_loop_preserves
            [of "\<lambda>b. length (fst b) = length (fst bufs) \<and> length (snd b) = length (snd bufs)", OF _ _ d])
         (simp_all add: depth_test_length)
    with "1.prems"(2,3)
    have l: "w * h \<le> int (length (fst b1))" "w * h \<le> int (length (snd b1))" by simp_all
    from "1.IH" [OF True d "1.prems"(1) l]
    obtain b2 where "theta_loop w h A B model ramp gam cam_distance (theta + 0.07) b1 = Some b2" by auto
    with True d show ?thesis
      by (simp add: theta_loop.simps [of w h A B model ramp gam cam_distance theta bufs])
  qed
qed

lemma render_total:
  assumes "ramp \<noteq> []" "w * h \<le> int (length out_buf)" "w * h \<le> int (length zbuf)"
  shows "\<exists>bufs'. render_torus_frame out_buf zbuf w h A B model ramp gam cam_distance = Some bufs'"
  unfolding render_torus_frame_def Let_def
  by (rule theta_loop_total) (use assms in simp_all)

lemma render_length:
  assumes "render_torus_frame out_buf zbuf w h A B model ramp gam cam_distance = Some bufs'"
  shows "length (fst bufs') = length out_buf \<and> length (snd bufs') = length zbuf"
proof -
  from assms have t: "theta_loop w h A B model ramp gam cam_distance 0.0
      (replicate (length out_buf) CHR '' '', replicate (length zbuf) 0.0) = Some bufs'"
    by (simp add: render_torus_frame_def Let_def)
  show ?thesis
    by (rule theta_loop_preserves
          [of "\<lambda>b. length (fst b) = length out_buf \<and> length (snd b) = length zbuf", OF _ _ t])
       (simp_all add: depth_test_length)
qed

lemma render_alphabet:
  assumes "render_torus_frame out_buf zbuf w h A B model ramp gam cam_distance = Some bufs'"
  shows "set (fst bufs') \<subseteq> insert CHR '' '' (set ramp)"
proof -
  from assms have t: "theta_loop w h A B model ramp gam cam_distance 0.0
      (replicate (length out_buf) CHR '' '', replicate (length zbuf) 0.0) = Some bufs'"
    by (simp add: render_torus_frame_def Let_def)
  show ?thesis
  proof (rule theta_loop_preserves
          [of "\<lambda>b. set (fst b) \<subseteq> insert CHR '' '' (set ramp)", OF _ _ t])
    show "set (fst (replicate (length out_buf) CHR '' '', replicate (length zbuf) (0.0::real)))
            \<subseteq> insert CHR '' '' (set ramp)"
      by auto
  qed (rule depth_test_alphabet)
qed

lemma loop_mono_step:
  assumes "length (snd b) = length z0 \<and> (\<forall>i<length z0. z0 ! i \<le> snd b ! i)"
    and "depth_test w h ramp smp b = Some b'"
  shows "length (snd b') = length z0 \<and> (\<forall>i<length z0. z0 ! i \<le> snd b' ! i)"
proof -
  from depth_test_length [OF assms(2)] assms(1) have l: "length (snd b') = length z0" by simp
  have "z0 ! i \<le> snd b' ! i" if "i < length z0" for i
  proof -
    from that assms(1) have "z0 ! i \<le> snd b ! i" and "i < length (snd b)" by simp_all
    with depth_test_mono [OF assms(2), of i] show ?thesis by linarith
  qed
  with l show ?thesis by simp
qed

lemma phi_loop_mono:
  assumes "phi_loop w h A B model ramp gam cam_distance theta phi bufs = Some bufs'"
  shows "length (snd bufs') = length (snd bufs) \<and> (\<forall>i<length (snd bufs). snd bufs ! i \<le> snd bufs' ! i)"
  by (rule phi_loop_preserves
        [of "\<lambda>b. length (snd b) = length (snd bufs) \<and> (\<forall>i<length (snd bufs). snd bufs ! i \<le> snd b ! i)",
         OF _ _ assms])
     (rule loop_mono_step, assumption+, simp)

lemma theta_loop_mono:
  assumes "theta_loop w h A B model ramp gam cam_distance theta bufs = Some bufs'"
  shows "length (snd bufs') = length (snd bufs) \<and> (\<forall>i<length (snd bufs). snd bufs ! i \<le> snd bufs' ! i)"
  by (rule theta_loop_preserves
        [of "\<lambda>b. length (snd b) = length (snd bufs) \<and> (\<forall>i<length (snd bufs). snd bufs ! i \<le> snd b ! i)",
         OF _ _ assms])
     (rule loop_mono_step, assumption+, simp)

text \<open>
  Claim C2. In the depth test of \<open>render_torus_frame\<close> a cell's glyph and stored depth change
  only at the candidate's own in-frame cell and only when the candidate's \<open>ooz\<close> is strictly
  greater than the depth stored there; a candidate whose \<open>ooz\<close> is equal to (or below) the
  stored depth leaves both buffers as they are, and one that is strictly greater writes its
  depth and glyph. The stored depth of every cell never decreases: not in one test, not over
  the rest of the inner loop, not over the rest of the pass.
\<close>

theorem depth_test_strict_and_monotone:
  "(depth_test w h ramp (xp, yp, ooz, idx) (out_buf, zbuf) = Some (out_buf', zbuf') \<longrightarrow>
      length zbuf' = length zbuf \<and> length out_buf' = length out_buf
      \<and> (\<forall>i<length zbuf. zbuf ! i \<le> zbuf' ! i)
      \<and> (\<forall>i. (i < length zbuf \<and> zbuf' ! i \<noteq> zbuf ! i) \<or> (i < length out_buf \<and> out_buf' ! i \<noteq> out_buf ! i)
             \<longrightarrow> 0 \<le> xp \<and> xp < w \<and> 0 \<le> yp \<and> yp < h \<and> int i = yp * w + xp \<and> zbuf ! i < ooz)
      \<and> (0 \<le> xp \<and> xp < w \<and> 0 \<le> yp \<and> yp < h \<and> ooz \<le> zbuf ! nat (yp * w + xp)
             \<longrightarrow> out_buf' = out_buf \<and> zbuf' = zbuf)
      \<and> (0 \<le> xp \<and> xp < w \<and> 0 \<le> yp \<and> yp < h \<and> zbuf ! nat (yp * w + xp) < ooz
             \<longrightarrow> zbuf' ! nat (yp * w + xp) = ooz \<and> out_buf' ! nat (yp * w + xp) = ramp ! nat idx))
   \<and> (phi_loop w h A B model ramp gam cam_distance theta phi (out_buf, zbuf) = Some (out_buf', zbuf')
        \<longrightarrow> (\<forall>i<length zbuf. zbuf ! i \<le> zbuf' ! i))
   \<and> (theta_loop w h A B model ramp gam cam_distance theta (out_buf, zbuf) = Some (out_buf', zbuf')
        \<longrightarrow> (\<forall>i<length zbuf. zbuf ! i \<le> zbuf' ! i))"
proof (intro conjI impI)
  assume d: "depth_test w h ramp (xp, yp, ooz, idx) (out_buf, zbuf) = Some (out_buf', zbuf')"
  note c = depth_test_cases [OF d]
  from depth_test_length [OF d] show "length zbuf' = length zbuf" "length out_buf' = length out_buf"
    by simp_all
  from depth_test_mono [OF d] show "\<forall>i<length zbuf. zbuf ! i \<le> zbuf' ! i" by simp
  show "\<forall>i. (i < length zbuf \<and> zbuf' ! i \<noteq> zbuf ! i) \<or> (i < length out_buf \<and> out_buf' ! i \<noteq> out_buf ! i)
             \<longrightarrow> 0 \<le> xp \<and> xp < w \<and> 0 \<le> yp \<and> yp < h \<and> int i = yp * w + xp \<and> zbuf ! i < ooz"
  proof (intro allI impI)
    fix i
    assume ch: "(i < length zbuf \<and> zbuf' ! i \<noteq> zbuf ! i) \<or> (i < length out_buf \<and> out_buf' ! i \<noteq> out_buf ! i)"
    with c have w: "0 \<le> xp \<and> xp < w \<and> 0 \<le> yp \<and> yp < h \<and> 0 \<le> yp * w + xp
        \<and> zbuf ! nat (yp * w + xp) < ooz
        \<and> out_buf' = out_buf[nat (yp * w + xp) := ramp ! nat idx]
        \<and> zbuf' = zbuf[nat (yp * w + xp) := ooz]" by auto
    with ch have "i = nat (yp * w + xp)" by (metis nth_list_update_neq)
    with w show "0 \<le> xp \<and> xp < w \<and> 0 \<le> yp \<and> yp < h \<and> int i = yp * w + xp \<and> zbuf ! i < ooz"
      by simp
  qed
  show "out_buf' = out_buf" "zbuf' = zbuf"
    if "0 \<le> xp \<and> xp < w \<and> 0 \<le> yp \<and> yp < h \<and> ooz \<le> zbuf ! nat (yp * w + xp)"
    using c that by auto
  show "zbuf' ! nat (yp * w + xp) = ooz" "out_buf' ! nat (yp * w + xp) = ramp ! nat idx"
    if t: "0 \<le> xp \<and> xp < w \<and> 0 \<le> yp \<and> yp < h \<and> zbuf ! nat (yp * w + xp) < ooz"
  proof -
    from c t have u: "out_buf' = out_buf[nat (yp * w + xp) := ramp ! nat idx]"
      "zbuf' = zbuf[nat (yp * w + xp) := ooz]"
      and "0 \<le> yp * w + xp" "yp * w + xp < int (length zbuf)" "yp * w + xp < int (length out_buf)"
      by auto
    then have "nat (yp * w + xp) < length zbuf" "nat (yp * w + xp) < length out_buf" by linarith+
    with u show "zbuf' ! nat (yp * w + xp) = ooz" "out_buf' ! nat (yp * w + xp) = ramp ! nat idx"
      by simp_all
  qed
next
  assume "phi_loop w h A B model ramp gam cam_distance theta phi (out_buf, zbuf) = Some (out_buf', zbuf')"
  from phi_loop_mono [OF this] show "\<forall>i<length zbuf. zbuf ! i \<le> zbuf' ! i" by simp
next
  assume "theta_loop w h A B model ramp gam cam_distance theta (out_buf, zbuf) = Some (out_buf', zbuf')"
  from theta_loop_mono [OF this] show "\<forall>i<length zbuf. zbuf ! i \<le> zbuf' ! i" by simp
qed

theorem depth_test_strict_and_monotone_witness:
  "depth_test 2 1 ''.#'' (1, 0, 1 / 2, 1) (''  '', [0, 0]) = Some ('' #'', [0, 1 / 2])
   \<and> ([0, 0] ! 1 :: real) < 1 / 2
   \<and> depth_test 2 1 ''.#'' (1, 0, 1 / 2, 0) ('' #'', [0, 1 / 2]) = Some ('' #'', [0, 1 / 2])
   \<and> (\<exists>ob zb. render_torus_frame ''xy'' [5, 7] 2 1 0 0 torus_default ''.#'' 1 10 = Some (ob, zb)
         \<and> 0 \<le> zb ! 0 \<and> 0 \<le> zb ! 1)"
proof -
  have a: "depth_test 2 1 ''.#'' (1, 0, 1 / 2, 1) (''  '', [0, 0]) = Some ('' #'', [0, 1 / 2])"
    by (simp add: depth_test_def elem_at_def)
  have b: "depth_test 2 1 ''.#'' (1, 0, 1 / 2, 0) ('' #'', [0, 1 / 2]) = Some ('' #'', [0, 1 / 2])"
    by (simp add: depth_test_def elem_at_def)
  from a depth_test_strict_and_monotone [of 2 1 "''.#''" 1 0 "1 / 2" 1 "''  ''" "[0, 0]" "'' #''" "[0, 1 / 2]"]
  have c: "([0, 0] ! 1 :: real) < 1 / 2" by simp
  from render_total [of "''.#''" 2 1 "''xy''" "[5, 7]" 0 0 torus_default 1 10]
  obtain ob zb where r: "render_torus_frame ''xy'' [5, 7] 2 1 0 0 torus_default ''.#'' 1 10 = Some (ob, zb)"
    by auto
  then have "theta_loop 2 1 0 0 torus_default ''.#'' 1 10 0.0 (''  '', [0, 0]) = Some (ob, zb)"
    by (simp add: render_torus_frame_def)
  with depth_test_strict_and_monotone
    [of 2 1 "''.#''" 0 0 0 0 "''  ''" "[0, 0]" ob zb 0 0 torus_default 1 10 "0.0" 0]
  have "\<forall>i<length [0::real, 0]. [0, 0] ! i \<le> zb ! i" by blast
  then have "0 \<le> zb ! 0 \<and> 0 \<le> zb ! 1" by (simp add: All_less_Suc)
  with a b c r show ?thesis by blast
qed

text \<open>
  Claim C10. \<open>render_torus_frame\<close> starts from a character buffer of blanks and a depth
  buffer of zeros, of the lengths of the buffers it is given. So the frame it returns is the
  same for any other buffers of those lengths, every cell of the returned character buffer
  is a blank or a glyph of the ramp, and the call returns whenever the ramp is not empty and
  the buffers have at least \<open>w * h\<close> cells.
\<close>

theorem render_alphabet_and_independence:
  "render_torus_frame out_buf zbuf w h A B model ramp gam cam_distance =
     theta_loop w h A B model ramp gam cam_distance 0.0
       (replicate (length out_buf) CHR '' '', replicate (length zbuf) 0.0)
   \<and> (length out_buf2 = length out_buf \<and> length zbuf2 = length zbuf \<longrightarrow>
        render_torus_frame out_buf2 zbuf2 w h A B model ramp gam cam_distance =
        render_torus_frame out_buf zbuf w h A B model ramp gam cam_distance)
   \<and> (render_torus_frame out_buf zbuf w h A B model ramp gam cam_distance = Some (out_buf', zbuf') \<longrightarrow>
        length out_buf' = length out_buf
        \<and> (\<forall>i<length out_buf'. out_buf' ! i = CHR '' '' \<or> out_buf' ! i \<in> set ramp))
   \<and> (ramp \<noteq> [] \<and> w * h \<le> int (length out_buf) \<and> w * h \<le> int (length zbuf) \<longrightarrow>
        (\<exists>bufs'. render_torus_frame out_buf zbuf w h A B model ramp gam cam_distance = Some bufs'))"
proof (intro conjI impI)
  show "render_torus_frame out_buf zbuf w h A B model ramp gam cam_distance =
     theta_loop w h A B model ramp gam cam_distance 0.0
       (replicate (length out_buf) CHR '' '', replicate (length zbuf) 0.0)"
    by (simp add: render_torus_frame_def)
next
  assume "length out_buf2 = length out_buf \<and> length zbuf2 = length zbuf"
  then show "render_torus_frame out_buf2 zbuf2 w h A B model ramp gam cam_distance =
        render_torus_frame out_buf zbuf w h A B model ramp gam cam_distance"
    by (simp add: render_torus_frame_def)
next
  assume r: "render_torus_frame out_buf zbuf w h A B model ramp gam cam_distance = Some (out_buf', zbuf')"
  from render_length [OF r] show "length out_buf' = length out_buf" by simp
  from render_alphabet [OF r] have "set out_buf' \<subseteq> insert CHR '' '' (set ramp)" by simp
  then show "\<forall>i<length out_buf'. out_buf' ! i = CHR '' '' \<or> out_buf' ! i \<in> set ramp"
    using nth_mem by blast
next
  assume "ramp \<noteq> [] \<and> w * h \<le> int (length out_buf) \<and> w * h \<le> int (length zbuf)"
  then show "\<exists>bufs'. render_torus_frame out_buf zbuf w h A B model ramp gam cam_distance = Some bufs'"
    using render_total by blast
qed

theorem render_alphabet_and_independence_witness:
  "\<exists>ob zb. render_torus_frame ''xy'' [5, 7] 2 1 0 0 torus_default ''.#'' 1 10 = Some (ob, zb)
     \<and> render_torus_frame ''  '' [0, 0] 2 1 0 0 torus_default ''.#'' 1 10 = Some (ob, zb)
     \<and> length ob = 2
     \<and> ob ! 0 \<in> {CHR '' '', CHR ''.'', CHR ''#''} \<and> ob ! 1 \<in> {CHR '' '', CHR ''.'', CHR ''#''}"
proof -
  note t = render_alphabet_and_independence
    [of "''xy''" "[5, 7]" 2 1 0 0 torus_default "''.#''" 1 10 "''  ''" "[0, 0]"]
  have "''.#'' \<noteq> [] \<and> (2::int) * 1 \<le> int (length ''xy'') \<and> (2::int) * 1 \<le> int (length [5::real, 7])"
    by simp
  with t [of "[]" "[]"]
  have "\<exists>bufs'. render_torus_frame ''xy'' [5, 7] 2 1 0 0 torus_default ''.#'' 1 10 = Some bufs'"
    by blast
  then obtain ob zb where
    e: "render_torus_frame ''xy'' [5, 7] 2 1 0 0 torus_default ''.#'' 1 10 = Some (ob, zb)"
    by auto
  have "length ''  '' = length ''xy'' \<and> length [0::real, 0] = length [5::real, 7]" by simp
  with t [of "[]" "[]"]
  have i: "render_torus_frame ''  '' [0, 0] 2 1 0 0 torus_default ''.#'' 1 10 =
            render_torus_frame ''xy'' [5, 7] 2 1 0 0 torus_default ''.#'' 1 10"
    by blast
  from e t [of ob zb]
  have "length ob = length ''xy''" and a: "\<forall>i<length ob. ob ! i = CHR '' '' \<or> ob ! i \<in> set ''.#''"
    by blast+
  then have l: "length ob = 2" by simp
  from a l have "ob ! 0 \<in> {CHR '' '', CHR ''.'', CHR ''#''} \<and> ob ! 1 \<in> {CHR '' '', CHR ''.'', CHR ''#''}"
    by (simp add: All_less_Suc numeral_2_eq_2)
  with e i l show ?thesis by simp
qed

section \<open>Totality of the estimators, the ramp and the scorer\<close>

lemma interior_offsets:
  fixes w h x y :: int
  assumes "1 \<le> y" "y < h - 1" "1 \<le> x" "x < w - 1"
  shows "0 \<le> y * w + x - w \<and> 0 \<le> y * w + x - 1 \<and> y * w + x + 1 < w * h \<and> y * w + x + w < w * h"
proof -
  from assms have w: "0 < w" by linarith
  from assms w have "1 * w \<le> y * w" by (intro mult_right_mono) simp_all
  then have lo: "w \<le> y * w" by simp
  from assms have "y + 2 \<le> h" by simp
  with w have "(y + 2) * w \<le> h * w" by (intro mult_right_mono) simp_all
  then have hi: "y * w + 2 * w \<le> w * h" by (simp add: algebra_simps)
  from lo hi assms w show ?thesis by linarith
qed

lemma elem_at_Some: "0 \<le> i \<Longrightarrow> i < int (length xs) \<Longrightarrow> elem_at xs i = Some (xs ! nat i)"
  by (simp add: elem_at_def)

lemma gradient_at_total:
  assumes "1 \<le> y" "y < h - 1" "1 \<le> x" "x < w - 1" "int (length buf) = w * h"
  shows "\<exists>g. gradient_at buf w (y * w + x) = Some g"
proof -
  from assms have w: "0 < w" by linarith
  note o = interior_offsets [OF assms(1-4)]
  from o w assms(5) have
    "elem_at buf (y * w + x - 1) = Some (buf ! nat (y * w + x - 1))"
    "elem_at buf (y * w + x + 1) = Some (buf ! nat (y * w + x + 1))"
    "elem_at buf (y * w + x - w) = Some (buf ! nat (y * w + x - w))"
    "elem_at buf (y * w + x + w) = Some (buf ! nat (y * w + x + w))"
    by (intro elem_at_Some; linarith)+
  then show ?thesis by (simp add: gradient_at_def Let_def)
qed

lemma quality_row_total:
  "1 \<le> y \<Longrightarrow> y < h - 1 \<Longrightarrow> 1 \<le> x \<Longrightarrow> int (length buf) = w * h \<Longrightarrow>
   \<exists>s'. quality_row buf w y x s = Some s'"
proof (induction buf w y x s rule: quality_row.induct)
  case (1 buf w y x acc cnt)
  show ?case
  proof (cases "x < w - 1")
    case False
    then show ?thesis by (simp add: quality_row.simps [of buf w y x acc cnt])
  next
    case True
    from gradient_at_total [OF "1.prems"(1,2,3) True "1.prems"(4)]
    obtain g where g: "gradient_at buf w (y * w + x) = Some g" by auto
    from "1.prems"(3) have "1 \<le> x + 1" by simp
    from "1.IH" [OF True g "1.prems"(1,2) this "1.prems"(4)]
    obtain s' where "quality_row buf w y (x + 1) (acc + g, cnt + 1) = Some s'" by auto
    with True g show ?thesis by (simp add: quality_row.simps [of buf w y x acc cnt])
  qed
qed

lemma quality_rows_total:
  "1 \<le> y \<Longrightarrow> int (length buf) = w * h \<Longrightarrow> \<exists>s'. quality_rows buf w h y s = Some s'"
proof (induction buf w h y s rule: quality_rows.induct)
  case (1 buf w h y s)
  show ?case
  proof (cases "y < h - 1")
    case False
    then show ?thesis by (simp add: quality_rows.simps [of buf w h y s])
  next
    case True
    from quality_row_total [OF "1.prems"(1) True _ "1.prems"(2), of 1 s]
    obtain s1 where r: "quality_row buf w y 1 s = Some s1" by auto
    from "1.prems"(1) have "1 \<le> y + 1" by simp
    from "1.IH" [OF True r this "1.prems"(2)]
    obtain s' where "quality_rows buf w h (y + 1) s1 = Some s'" by auto
    with True r show ?thesis by (simp add: quality_rows.simps [of buf w h y s])
  qed
qed

lemma estimate_ascii_quality_total:
  assumes "int (length buf) = w * h"
  shows "\<exists>q. estimate_ascii_quality buf w h = Some q \<and> 0 \<le> q \<and> q \<le> 1"
proof (cases "w < 3 \<or> h < 3")
  case True
  then show ?thesis by (simp add: estimate_ascii_quality_def)
next
  case False
  from quality_rows_total [OF _ assms, of 1 "(0.0, 0)"]
  obtain acc cnt where "quality_rows buf w h 1 (0.0, 0) = Some (acc, cnt)" by auto
  with False std_clamp_range [of "0::real" 1 "acc / real_of_int cnt"] show ?thesis
    by (simp add: estimate_ascii_quality_def Let_def)
qed

lemma ramp_glyph_total:
  assumes "base \<noteq> []" "0 \<le> i" "i < n"
  shows "\<exists>c. ramp_glyph base n i = Some c"
proof -
  define t :: real where "t = (if n = 1 then 0.0 else real_of_int i / real_of_int (n - 1))"
  define m :: real where "m = real (length base) - 1"
  from assms(1) have m: "0 \<le> m" by (cases base) (simp_all add: m_def)
  have t: "0 \<le> t \<and> t \<le> 1"
  proof (cases "n = 1")
    case True
    then show ?thesis by (simp add: t_def)
  next
    case False
    with assms have "0 < n - 1" "i \<le> n - 1" by linarith+
    then show ?thesis using assms(2) False by (simp add: t_def)
  qed
  from t m have lo: "0 \<le> t * m" by simp
  from t m have "t * m \<le> 1 * m" by (intro mult_right_mono) simp_all
  then have hi: "t * m \<le> m" by simp
  from lo have i0: "0 \<le> \<lfloor>t * m\<rfloor>" by simp
  from hi have "\<lfloor>t * m\<rfloor> \<le> \<lfloor>m\<rfloor>" by (rule floor_mono)
  then have i0': "\<lfloor>t * m\<rfloor> \<le> int (length base) - 1" by (simp add: m_def)
  from assms(1) have l: "0 \<le> int (length base) - 1" by (cases base) simp_all
  from i0 i0' have a: "elem_at base \<lfloor>t * m\<rfloor> = Some (base ! nat \<lfloor>t * m\<rfloor>)"
    by (intro elem_at_Some) linarith+
  from i0 l have b: "elem_at base (min (int (length base) - 1) (\<lfloor>t * m\<rfloor> + 1))
      = Some (base ! nat (min (int (length base) - 1) (\<lfloor>t * m\<rfloor> + 1)))"
    by (intro elem_at_Some) linarith+
  from a b show ?thesis
    unfolding ramp_glyph_def Let_def t_def [symmetric] m_def [symmetric] by simp
qed

lemma make_ramp_loop_total:
  "base \<noteq> [] \<Longrightarrow> 0 \<le> i \<Longrightarrow>
   \<exists>r. make_ramp_loop base n i ramp = Some r \<and> int (length r) = int (length ramp) + max 0 (n - i)"
proof (induction base n i ramp rule: make_ramp_loop.induct)
  case (1 base n i ramp)
  show ?case
  proof (cases "i < n")
    case False
    then show ?thesis by (simp add: make_ramp_loop.simps [of base n i ramp])
  next
    case True
    from ramp_glyph_total [OF "1.prems"(1,2) True]
    obtain c where c: "ramp_glyph base n i = Some c" by auto
    from "1.prems"(2) have "0 \<le> i + 1" by simp
    from "1.IH" [OF True c "1.prems"(1) this]
    obtain r where "make_ramp_loop base n (i + 1) (ramp @ [c]) = Some r"
      and "int (length r) = int (length (ramp @ [c])) + max 0 (n - (i + 1))" by auto
    with True c show ?thesis by (simp add: make_ramp_loop.simps [of base n i ramp])
  qed
qed

lemma make_ramp_total:
  assumes "0 \<le> n"
  shows "\<exists>r. make_ramp n = Some r \<and> int (length r) = n"
proof (cases "n = int (length DEFAULT_RAMP)")
  case True
  then show ?thesis by (simp add: make_ramp_def)
next
  case False
  have "DEFAULT_RAMP \<noteq> []" by (simp add: DEFAULT_RAMP_def)
  from make_ramp_loop_total [OF this, of 0 n "[]"] assms False show ?thesis
    by (simp add: make_ramp_def)
qed

lemma measure_frame_time_fps: "0 \<le> fps (measure_frame_time t0 t1)"
  by (simp add: measure_frame_time_def Let_def)

lemma fps_norm_range:
  assumes "0 \<le> f"
  shows "0 \<le> min (f / real_of_int (max 1 n)) 1 \<and> min (f / real_of_int (max 1 n)) 1 \<le> 1"
proof -
  have "0 < real_of_int (max 1 n)" by simp
  with assms have "0 \<le> f / real_of_int (max 1 n)" by simp
  then show ?thesis by simp
qed

lemma evaluate_score_range:
  assumes "8 \<le> ramp_size pv"
  shows "\<exists>s. evaluate_score pv A B torus base_w base_h target_fps 0.5 0.5 cam_distance clock = Some s
             \<and> 0 \<le> s \<and> s \<le> 1"
proof -
  define w where "w = max 10 (to_int (std_round (real_of_int base_w * resolution_scale pv)))"
  define h where "h = max 10 (to_int (std_round (real_of_int base_h * resolution_scale pv)))"
  obtain t0 t1 where clock: "clock = (t0, t1)" by (cases clock) auto
  have "10 \<le> w" "10 \<le> h" by (simp_all add: w_def h_def)
  then have "10 * 10 \<le> w * h" by (intro mult_mono) simp_all
  then have wh: "0 \<le> w * h" by simp
  from assms make_ramp_total [of "ramp_size pv"]
  obtain ramp where ramp: "make_ramp (ramp_size pv) = Some ramp" and "int (length ramp) = ramp_size pv"
    by auto
  with assms have ne: "ramp \<noteq> []" by auto
  from wh render_total [OF ne, of w h "replicate (nat (w * h)) CHR '' ''" "replicate (nat (w * h)) 0.0"
      A B torus "gamma pv" cam_distance]
  obtain buf zb where r: "render_torus_frame (replicate (nat (w * h)) CHR '' '')
      (replicate (nat (w * h)) 0.0) w h A B torus ramp (gamma pv) cam_distance = Some (buf, zb)"
    by auto
  from render_length [OF r] wh have "int (length buf) = w * h" by simp
  from estimate_ascii_quality_total [OF this]
  obtain q where q: "estimate_ascii_quality buf w h = Some q" "0 \<le> q" "q \<le> 1" by auto
  define f where "f = min (fps (measure_frame_time t0 t1) / real_of_int (max 1 target_fps)) 1"
  from fps_norm_range [OF measure_frame_time_fps, of t0 t1 target_fps]
  have f: "0 \<le> f" "f \<le> 1" by (simp_all add: f_def)
  have "evaluate_score pv A B torus base_w base_h target_fps 0.5 0.5 cam_distance clock
          = Some (0.5 * f + 0.5 * q)"
    unfolding evaluate_score_def w_def [symmetric] h_def [symmetric] Let_def clock
    using ramp r q by (simp add: f_def)
  moreover from f q have "0 \<le> 0.5 * f + 0.5 * q \<and> 0.5 * f + 0.5 * q \<le> 1" by simp
  ultimately show ?thesis by blast
qed

lemma estimate_ascii_quality_range:
  assumes "estimate_ascii_quality buf w h = Some q"
  shows "0 \<le> q \<and> q \<le> 1"
proof (cases "w < 3 \<or> h < 3")
  case True
  with assms show ?thesis by (auto simp add: estimate_ascii_quality_def)
next
  case False
  with assms have "q = 0 \<or> (\<exists>v. q = std_clamp v 0 1)"
    by (auto simp add: estimate_ascii_quality_def Let_def split: option.splits if_splits)
  moreover have "0 \<le> std_clamp v 0 1 \<and> std_clamp v 0 1 \<le> 1" for v :: real
    by (rule std_clamp_range) simp
  ultimately show ?thesis by auto
qed

section \<open>The score\<close>

lemma evaluate_score_partial:
  assumes "evaluate_score pv A B torus base_w base_h target_fps 0.5 0.5 cam_distance clock = Some s"
  shows "0 \<le> s \<and> s \<le> 1"
proof -
  obtain t0 t1 where clock: "clock = (t0, t1)" by (cases clock) auto
  define f where "f = min (fps (measure_frame_time t0 t1) / real_of_int (max 1 target_fps)) 1"
  from fps_norm_range [OF measure_frame_time_fps, of t0 t1 target_fps]
  have f: "0 \<le> f" "f \<le> 1" by (simp_all add: f_def)
  from assms obtain buf w h q where q: "estimate_ascii_quality buf w h = Some q"
    and s: "s = 0.5 * f + 0.5 * q"
    unfolding evaluate_score_def Let_def clock f_def
    by (auto split: option.splits prod.splits)
  from estimate_ascii_quality_range [OF q] f show ?thesis unfolding s by simp
qed

text \<open>
  Claim C7. With both weights 0.5 and a target of at least one frame per second, every value
  that \<open>evaluate_score\<close> returns, for any parameter vector and any pair of clock readings,
  lies between 0 and 1, and for an in-domain parameter vector it does return one. The
  frame-rate term \<open>min (fps / target) 1\<close> of a measured frame time lies between 0 and 1, and
  so does every quality estimate.
\<close>

theorem evaluate_score_bound:
  assumes "1 \<le> target_fps"
  shows "(evaluate_score pv A B torus base_w base_h target_fps 0.5 0.5 cam_distance clock = Some s
            \<longrightarrow> 0 \<le> s \<and> s \<le> 1)
       \<and> (in_domain pv \<longrightarrow>
            (\<exists>s. evaluate_score pv A B torus base_w base_h target_fps 0.5 0.5 cam_distance clock = Some s
                 \<and> 0 \<le> s \<and> s \<le> 1))
       \<and> 0 \<le> min (fps (measure_frame_time t0 t1) / real_of_int (max 1 target_fps)) 1.0
       \<and> min (fps (measure_frame_time t0 t1) / real_of_int (max 1 target_fps)) 1.0 \<le> 1
       \<and> (estimate_ascii_quality buf w h = Some q \<longrightarrow> 0 \<le> q \<and> q \<le> 1)"
proof (intro conjI impI)
  assume "evaluate_score pv A B torus base_w base_h target_fps 0.5 0.5 cam_distance clock = Some s"
  from evaluate_score_partial [OF this] show "0 \<le> s" "s \<le> 1" by simp_all
next
  assume "in_domain pv"
  then have "8 \<le> ramp_size pv" by (simp add: in_domain_def)
  from evaluate_score_range [OF this]
  show "\<exists>s. evaluate_score pv A B torus base_w base_h target_fps 0.5 0.5 cam_distance clock = Some s
               \<and> 0 \<le> s \<and> s \<le> 1" .
next
  from fps_norm_range [OF measure_frame_time_fps, of t0 t1 target_fps]
  show "0 \<le> min (fps (measure_frame_time t0 t1) / real_of_int (max 1 target_fps)) 1.0"
    "min (fps (measure_frame_time t0 t1) / real_of_int (max 1 target_fps)) 1.0 \<le> 1"
    by simp_all
next
  assume "estimate_ascii_quality buf w h = Some q"
  from estimate_ascii_quality_range [OF this] show "0 \<le> q" "q \<le> 1" by simp_all
qed

theorem evaluate_score_bound_witness:
  "in_domain pv_default \<and> (1::int) \<le> 30
   \<and> (\<exists>s. evaluate_score pv_default (6 / 10) (4 / 10) torus_default 80 24 30 0.5 0.5 10 (0, 5) = Some s
            \<and> 0 \<le> s \<and> s \<le> 1)
   \<and> fps (measure_frame_time 0 5) = 200
   \<and> min (fps (measure_frame_time 0 5) / real_of_int (max 1 30)) 1.0 = 1"
proof -
  have a: "in_domain pv_default" by (simp add: in_domain_def pv_default_def)
  have b: "(1::int) \<le> 30" by simp
  from a evaluate_score_bound [OF b, of pv_default "6 / 10" "4 / 10" torus_default 80 24 10 "(0, 5)" 0 0 5 "[]" 0 0 0]
  have "\<exists>s. evaluate_score pv_default (6 / 10) (4 / 10) torus_default 80 24 30 0.5 0.5 10 (0, 5) = Some s
            \<and> 0 \<le> s \<and> s \<le> 1" by blast
  moreover have "fps (measure_frame_time 0 5) = 200"
    "min (fps (measure_frame_time 0 5) / real_of_int (max 1 30)) 1.0 = 1"
    by (simp_all add: measure_frame_time_def)
  ultimately show ?thesis using a b by blast
qed

section \<open>The estimators of metrics.hpp on 32-bit integers\<close>

lemma sint_add_nowrap:
  fixes a b :: i32
  assumes "- (2 ^ 31) \<le> sint a + sint b" "sint a + sint b < 2 ^ 31"
  shows "sint (a + b) = sint a + sint b"
  using assms by (simp add: sint_word_ariths signed_take_bit_int_eq_self)

lemma sint_sub_nowrap:
  fixes a b :: i32
  assumes "- (2 ^ 31) \<le> sint a - sint b" "sint a - sint b < 2 ^ 31"
  shows "sint (a - b) = sint a - sint b"
  using assms by (simp add: sint_word_ariths signed_take_bit_int_eq_self)

lemma sint_mult_nowrap:
  fixes a b :: i32
  assumes "- (2 ^ 31) \<le> sint a * sint b" "sint a * sint b < 2 ^ 31"
  shows "sint (a * b) = sint a * sint b"
  using assms by (simp add: sint_word_ariths signed_take_bit_int_eq_self)

lemma sint_i32_range: "- (2 ^ 31) \<le> sint (a :: i32) \<and> sint a < 2 ^ 31"
  using sint_ge [of a] sint_lt [of a] by simp

lemma sint_succ:
  fixes x b :: i32
  assumes "sint x < sint b"
  shows "sint (x + 1) = sint x + 1"
proof -
  from assms sint_i32_range [of b] sint_i32_range [of x]
  have "- (2 ^ 31) \<le> sint x + sint (1 :: i32)" "sint x + sint (1 :: i32) < 2 ^ 31" by simp_all
  from sint_add_nowrap [OF this] show ?thesis by simp
qed

lemma sint_pred:
  fixes w :: i32
  assumes "3 \<le> sint w"
  shows "sint (w - 1) = sint w - 1"
proof -
  from assms sint_i32_range [of w]
  have "- (2 ^ 31) \<le> sint w - sint (1 :: i32)" "sint w - sint (1 :: i32) < 2 ^ 31" by simp_all
  from sint_sub_nowrap [OF this] show ?thesis by simp
qed

lemma sint_of_nat_small:
  assumes "int n < 2 ^ 31"
  shows "sint (word_of_nat n :: i32) = int n"
proof -
  have e: "(word_of_nat n :: i32) = word_of_int (int n)" by simp
  have "sint (word_of_int (int n) :: i32) = signed_take_bit (LENGTH(32) - 1) (int n)"
    by (simp only: sint_sbintrunc')
  also have "\<dots> = int n" using assms by (simp add: signed_take_bit_int_eq_self)
  finally show ?thesis by (simp only: e)
qed

lemma sint_of_nat_le:
  assumes "0 \<le> sint (word_of_nat n :: i32)"
  shows "sint (word_of_nat n :: i32) \<le> int n"
proof -
  define c :: i32 where "c = word_of_nat n"
  from assms sint_i32_range [of c] have "0 \<le> sint c" "sint c < 2 ^ 32" by (simp_all add: c_def)
  then have "uint c = sint c" by (simp add: uint_sint take_bit_int_eq_self)
  moreover have "uint c \<le> int n"
    unfolding c_def by (metis (mono_tags, lifting) le_unat_uoi linorder_le_cases of_nat_le_iff of_nat_unat)
  ultimately show ?thesis by (simp add: c_def)
qed

lemma word_mult_of_product:
  fixes w h :: i32
  assumes "int n = sint w * sint h"
  shows "word_of_nat n = w * h"
proof -
  have "w * h = word_of_int (sint w) * word_of_int (sint h)" by simp
  also have "\<dots> = word_of_int (sint w * sint h)" by (simp only: of_int_mult)
  also have "\<dots> = word_of_int (int n)" by (simp only: assms)
  finally show ?thesis by simp
qed

lemma interior_i32:
  fixes w h x y :: i32
  assumes "sint w * sint h < 2 ^ 31" "1 \<le> sint y" "sint y < sint h - 1" "1 \<le> sint x" "sint x < sint w - 1"
  shows "sint (y * w + x - 1) = sint y * sint w + sint x - 1
       \<and> sint (y * w + x + 1) = sint y * sint w + sint x + 1
       \<and> sint (y * w + x - w) = sint y * sint w + sint x - sint w
       \<and> sint (y * w + x + w) = sint y * sint w + sint x + sint w"
proof -
  note o = interior_offsets [OF assms(2-5)]
  from assms have w: "0 < sint w" by linarith
  from assms w have yw: "0 \<le> sint y * sint w" by simp
  from o assms(1) w yw assms(4) have
    b1: "- (2 ^ 31) \<le> sint y * sint w" "sint y * sint w < 2 ^ 31" by linarith+
  from sint_mult_nowrap [OF b1] have m: "sint (y * w) = sint y * sint w" .
  from o assms(1) w yw assms(4) have
    "- (2 ^ 31) \<le> sint (y * w) + sint x" "sint (y * w) + sint x < 2 ^ 31" unfolding m by linarith+
  from sint_add_nowrap [OF this] m have off: "sint (y * w + x) = sint y * sint w + sint x" by simp
  from o assms(1) w have
    "- (2 ^ 31) \<le> sint (y * w + x) - sint (1 :: i32)" "sint (y * w + x) - sint (1 :: i32) < 2 ^ 31"
    unfolding off by simp_all
  from sint_sub_nowrap [OF this] off have a: "sint (y * w + x - 1) = sint y * sint w + sint x - 1" by simp
  from o assms(1) w have
    "- (2 ^ 31) \<le> sint (y * w + x) + sint (1 :: i32)" "sint (y * w + x) + sint (1 :: i32) < 2 ^ 31"
    unfolding off by simp_all
  from sint_add_nowrap [OF this] off have b: "sint (y * w + x + 1) = sint y * sint w + sint x + 1" by simp
  from o assms(1) w have
    "- (2 ^ 31) \<le> sint (y * w + x) - sint w" "sint (y * w + x) - sint w < 2 ^ 31"
    unfolding off by linarith+
  from sint_sub_nowrap [OF this] off have c: "sint (y * w + x - w) = sint y * sint w + sint x - sint w" by simp
  from o assms(1) w have
    "- (2 ^ 31) \<le> sint (y * w + x) + sint w" "sint (y * w + x) + sint w < 2 ^ 31"
    unfolding off by linarith+
  from sint_add_nowrap [OF this] off have d: "sint (y * w + x + w) = sint y * sint w + sint x + sint w" by simp
  from a b c d show ?thesis by simp
qed

lemma gradient_at_i32_total:
  fixes w h x y :: i32
  assumes "sint w * sint h < 2 ^ 31" "1 \<le> sint y" "sint y < sint h - 1" "1 \<le> sint x" "sint x < sint w - 1"
    and "int (length buf) = sint w * sint h"
  shows "\<exists>g. gradient_at_i32 buf w (y * w + x) = Some g"
proof -
  from assms have w: "0 < sint w" by linarith
  note o = interior_offsets [OF assms(2-5)]
  note s = interior_i32 [OF assms(1-5)]
  from o w assms(6) have
    "elem_at buf (sint y * sint w + sint x - 1) = Some (buf ! nat (sint y * sint w + sint x - 1))"
    "elem_at buf (sint y * sint w + sint x + 1) = Some (buf ! nat (sint y * sint w + sint x + 1))"
    "elem_at buf (sint y * sint w + sint x - sint w) = Some (buf ! nat (sint y * sint w + sint x - sint w))"
    "elem_at buf (sint y * sint w + sint x + sint w) = Some (buf ! nat (sint y * sint w + sint x + sint w))"
    by (intro elem_at_Some; linarith)+
  with s show ?thesis by (simp add: gradient_at_i32_def Let_def)
qed

lemma quality_row_i32_total:
  "3 \<le> sint w \<Longrightarrow> sint w * sint (h :: i32) < 2 ^ 31 \<Longrightarrow> int (length buf) = sint w * sint h \<Longrightarrow>
   1 \<le> sint y \<Longrightarrow> sint y < sint h - 1 \<Longrightarrow> 1 \<le> sint x \<Longrightarrow>
   \<exists>s'. quality_row_i32 buf w y x s = Some s'"
proof (induction buf w y x s rule: quality_row_i32.induct)
  case (1 buf w y x acc cnt)
  show ?case
  proof (cases "sint x < sint (w - 1)")
    case False
    then show ?thesis by (simp add: quality_row_i32.simps [of buf w y x acc cnt])
  next
    case True
    with sint_pred [OF "1.prems"(1)] have x: "sint x < sint w - 1" by simp
    from gradient_at_i32_total [OF "1.prems"(2) "1.prems"(4,5,6) x "1.prems"(3)]
    obtain g where g: "gradient_at_i32 buf w (y * w + x) = Some g" by auto
    from sint_succ [OF True] "1.prems"(6) have "1 \<le> sint (x + 1)" by simp
    from "1.IH" [OF True g "1.prems"(1,2,3,4,5) this]
    obtain s' where "quality_row_i32 buf w y (x + 1) (acc + g, cnt + 1) = Some s'" by auto
    with True g show ?thesis by (simp add: quality_row_i32.simps [of buf w y x acc cnt])
  qed
qed

lemma quality_rows_i32_total:
  "3 \<le> sint w \<Longrightarrow> 3 \<le> sint h \<Longrightarrow> sint w * sint h < 2 ^ 31 \<Longrightarrow>
   int (length buf) = sint w * sint h \<Longrightarrow> 1 \<le> sint y \<Longrightarrow>
   \<exists>s'. quality_rows_i32 buf w h y s = Some s'"
proof (induction buf w h y s rule: quality_rows_i32.induct)
  case (1 buf w h y s)
  show ?case
  proof (cases "sint y < sint (h - 1)")
    case False
    then show ?thesis by (simp add: quality_rows_i32.simps [of buf w h y s])
  next
    case True
    with sint_pred [OF "1.prems"(2)] have y: "sint y < sint h - 1" by simp
    have "1 \<le> sint (1 :: i32)" by simp
    from quality_row_i32_total [OF "1.prems"(1,3,4,5) y this, of s]
    obtain s1 where r: "quality_row_i32 buf w y 1 s = Some s1" by auto
    from sint_succ [OF True] "1.prems"(5) have "1 \<le> sint (y + 1)" by simp
    from "1.IH" [OF True r "1.prems"(1,2,3,4) this]
    obtain s' where "quality_rows_i32 buf w h (y + 1) s1 = Some s'" by auto
    with True r show ?thesis by (simp add: quality_rows_i32.simps [of buf w h y s])
  qed
qed

lemma estimate_ascii_quality_i32_total:
  assumes "3 \<le> sint w" "3 \<le> sint h" "sint w * sint h < 2 ^ 31" "int (length buf) = sint w * sint h"
  shows "\<exists>q. estimate_ascii_quality_i32 buf w h = Some q"
proof -
  have "1 \<le> sint (1 :: i32)" by simp
  from quality_rows_i32_total [OF assms this, of "(0.0, 0)"]
  obtain acc cnt where "quality_rows_i32 buf w h 1 (0.0, 0) = Some (acc, cnt)" by auto
  with assms(1,2) show ?thesis
    by (simp add: estimate_ascii_quality_i32_def Let_def)
qed

lemma gradient_at_i32_wraps:
  "gradient_at_i32 buf 1073741824 1073741825 = None"
proof -
  have "sint ((1073741825 :: i32) + 1073741824) < 0" by simp
  then have "elem_at buf (sint ((1073741825 :: i32) + 1073741824)) = None"
    by (simp only: elem_at_def) simp
  then show ?thesis
    by (simp only: gradient_at_i32_def option.case split: option.splits) simp
qed

lemma estimate_ascii_quality_i32_wraps:
  "estimate_ascii_quality_i32 buf 1073741824 3 = None"
proof -
  have "quality_row_i32 buf 1073741824 1 1 (0, 0) = None"
    using gradient_at_i32_wraps [of buf]
    by (simp add: quality_row_i32.simps [of buf 1073741824 1 1 0 0])
  then have "quality_rows_i32 buf 1073741824 3 1 (0, 0) = None"
    by (simp add: quality_rows_i32.simps [of buf 1073741824 3 1 "(0, 0)"])
  then show ?thesis by (simp add: estimate_ascii_quality_i32_def)
qed

lemma similarity_loop_self:
  "ref = buf \<Longrightarrow> 0 \<le> sint i \<Longrightarrow> (0 < sint cnt \<longrightarrow> sint cnt \<le> int (length buf)) \<Longrightarrow>
   similarity_loop buf ref cnt i acc = Some acc"
proof (induction buf ref cnt i acc rule: similarity_loop.induct)
  case (1 buf ref cnt i acc)
  show ?case
  proof (cases "sint i < sint cnt")
    case False
    then show ?thesis by (simp add: similarity_loop.simps [of buf ref cnt i acc])
  next
    case True
    with "1.prems" have "sint i < int (length buf)" by linarith
    with "1.prems" have b: "elem_at buf (sint i) = Some (buf ! nat (sint i))"
      "elem_at ref (sint i) = Some (buf ! nat (sint i))"
      by (simp_all add: elem_at_def)
    from True b have step: "similarity_loop buf ref cnt i acc = similarity_loop buf ref cnt (i + 1) acc"
      by (simp add: similarity_loop.simps [of buf ref cnt i acc] Let_def)
    from sint_succ [OF True] "1.prems"(2) have "0 \<le> sint (i + 1)" by simp
    from "1.IH" [OF True b(1) b(2) refl refl refl "1.prems"(1) this "1.prems"(3)] b
    have "similarity_loop buf ref cnt (i + 1) acc = Some acc" by simp
    with step show ?thesis by simp
  qed
qed

lemma estimate_ascii_similarity_self:
  "estimate_ascii_similarity buf buf w h =
     Some (if word_of_nat (length buf) = w * h \<and> w * h \<noteq> 0 then 1 else 0)"
proof (cases "(word_of_nat (length buf) :: i32) = w * h")
  case False
  then show ?thesis by (simp add: estimate_ascii_similarity_def)
next
  case True
  have "0 < sint (w * h) \<longrightarrow> sint (w * h) \<le> int (length buf)"
    using sint_of_nat_le [of "length buf"] True by simp
  moreover have "0 \<le> sint (0 :: i32)" by simp
  ultimately have "similarity_loop buf buf (w * h) 0 0 = Some 0"
    by (intro similarity_loop_self) simp_all
  with True show ?thesis by (simp add: estimate_ascii_similarity_def Let_def)
qed

lemma word_of_nat_nonzero:
  assumes "0 < n" "int n < 2 ^ 32"
  shows "(word_of_nat n :: i32) \<noteq> 0"
proof
  assume "(word_of_nat n :: i32) = 0"
  then have "unat (word_of_nat n :: i32) = 0" by simp
  then have "n mod 2 ^ 32 = 0" by (simp add: unat_of_nat)
  moreover from assms(2) have "n < 2 ^ 32" by (simp add: of_nat_less_numeral_power_cancel_iff)
  ultimately show False using assms(1) by simp
qed

text \<open>
  While \<open>w * h\<close> is in the range of \<open>int\<close> nothing wraps around, and the estimator on 32-bit
  integers is the estimator on integers without bound that the scorer uses.
\<close>

lemma gradient_at_i32_eq:
  fixes w h x y :: i32
  assumes "sint w * sint h < 2 ^ 31" "1 \<le> sint y" "sint y < sint h - 1" "1 \<le> sint x" "sint x < sint w - 1"
  shows "gradient_at_i32 buf w (y * w + x) = gradient_at buf (sint w) (sint y * sint w + sint x)"
proof -
  from interior_i32 [OF assms] have s:
    "sint (y * w + x - 1) = sint y * sint w + sint x - 1"
    "sint (y * w + x + 1) = sint y * sint w + sint x + 1"
    "sint (y * w + x - w) = sint y * sint w + sint x - sint w"
    "sint (y * w + x + w) = sint y * sint w + sint x + sint w"
    by simp_all
  show ?thesis unfolding gradient_at_i32_def gradient_at_def s by (rule refl)
qed

lemma quality_row_cnt:
  "quality_row buf w y x s = Some s' \<Longrightarrow> snd s' = snd s + max 0 (w - 1 - x)"
proof (induction buf w y x s rule: quality_row.induct)
  case (1 buf w y x acc cnt)
  show ?case
  proof (cases "x < w - 1")
    case False
    with "1.prems" show ?thesis by (simp add: quality_row.simps [of buf w y x acc cnt])
  next
    case True
    with "1.prems" obtain g where g: "gradient_at buf w (y * w + x) = Some g"
      and r: "quality_row buf w y (x + 1) (acc + g, cnt + 1) = Some s'"
      by (simp add: quality_row.simps [of buf w y x acc cnt] split: option.splits)
    from "1.IH" [OF True g r] True show ?thesis by simp
  qed
qed

lemma quality_row_i32_eq:
  "sint w * sint (h :: i32) < 2 ^ 31 \<Longrightarrow> 3 \<le> sint w \<Longrightarrow> 1 \<le> sint y \<Longrightarrow> sint y < sint h - 1 \<Longrightarrow>
   1 \<le> sint x \<Longrightarrow> sint x \<le> sint w - 1 \<Longrightarrow>
   0 \<le> sint (snd s) \<Longrightarrow> sint (snd s) + (sint w - 1 - sint x) < 2 ^ 31 \<Longrightarrow>
   map_option (\<lambda>(a, c). (a, sint c)) (quality_row_i32 buf w y x s)
     = quality_row buf (sint w) (sint y) (sint x) (fst s, sint (snd s))"
proof (induction buf w y x s rule: quality_row_i32.induct)
  case (1 buf w y x acc cnt)
  note p = sint_pred [OF "1.prems"(2)]
  show ?case
  proof (cases "sint x < sint (w - 1)")
    case False
    with p show ?thesis
      by (simp add: quality_row_i32.simps [of buf w y x acc cnt]
            quality_row.simps [of buf "sint w" "sint y" "sint x" acc "sint cnt"])
  next
    case True
    with p have x: "sint x < sint w - 1" by simp
    note ge = gradient_at_i32_eq [OF "1.prems"(1,3,4,5) x, of buf]
    show ?thesis
    proof (cases "gradient_at_i32 buf w (y * w + x)")
      case None
      with ge True x show ?thesis
        by (simp add: quality_row_i32.simps [of buf w y x acc cnt]
              quality_row.simps [of buf "sint w" "sint y" "sint x" acc "sint cnt"])
    next
      case (Some g)
      from sint_succ [OF True] have sx: "sint (x + 1) = sint x + 1" .
      from "1.prems"(7,8) x sint_i32_range [of cnt]
      have "- (2 ^ 31) \<le> sint cnt + sint (1 :: i32)" "sint cnt + sint (1 :: i32) < 2 ^ 31" by simp_all
      from sint_add_nowrap [OF this] have sc: "sint (cnt + 1) = sint cnt + 1" by simp
      from "1.prems"(5) sx have a1: "1 \<le> sint (x + 1)" by simp
      from x sx have a2: "sint (x + 1) \<le> sint w - 1" by simp
      from "1.prems"(7) sc have a3: "0 \<le> sint (snd (acc + g, cnt + 1))" by simp
      from "1.prems"(8) sc sx have a4: "sint (snd (acc + g, cnt + 1)) + (sint w - 1 - sint (x + 1)) < 2 ^ 31"
        by simp
      from "1.IH" [OF True Some "1.prems"(1,2,3,4) a1 a2 a3 a4] sx sc
      have "map_option (\<lambda>(a, c). (a, sint c)) (quality_row_i32 buf w y (x + 1) (acc + g, cnt + 1))
          = quality_row buf (sint w) (sint y) (sint x + 1) (acc + g, sint cnt + 1)" by simp
      with Some ge True x show ?thesis
        by (simp add: quality_row_i32.simps [of buf w y x acc cnt]
              quality_row.simps [of buf "sint w" "sint y" "sint x" acc "sint cnt"])
    qed
  qed
qed

lemma quality_rows_i32_eq:
  "sint w * sint h < 2 ^ 31 \<Longrightarrow> 3 \<le> sint w \<Longrightarrow> 3 \<le> sint h \<Longrightarrow> 1 \<le> sint y \<Longrightarrow> sint y \<le> sint h - 1 \<Longrightarrow>
   0 \<le> sint (snd s) \<Longrightarrow> sint (snd s) + (sint h - 1 - sint y) * (sint w - 2) < 2 ^ 31 \<Longrightarrow>
   map_option (\<lambda>(a, c). (a, sint c)) (quality_rows_i32 buf w h y s)
     = quality_rows buf (sint w) (sint h) (sint y) (fst s, sint (snd s))"
proof (induction buf w h y s rule: quality_rows_i32.induct)
  case (1 buf w h y s)
  note p = sint_pred [OF "1.prems"(3)]
  show ?case
  proof (cases "sint y < sint (h - 1)")
    case False
    with p show ?thesis
      by (simp add: quality_rows_i32.simps [of buf w h y s] case_prod_beta
            quality_rows.simps [of buf "sint w" "sint h" "sint y" "(fst s, sint (snd s))"])
  next
    case True
    with p have y: "sint y < sint h - 1" by simp
    from "1.prems"(2) have w2: "0 \<le> sint w - 2" by simp
    from y have "1 \<le> sint h - 1 - sint y" by simp
    with w2 have "1 * (sint w - 2) \<le> (sint h - 1 - sint y) * (sint w - 2)"
      by (intro mult_right_mono) simp_all
    with "1.prems"(7) have b: "sint (snd s) + (sint w - 1 - sint (1 :: i32)) < 2 ^ 31" by simp
    have one: "1 \<le> sint (1 :: i32)" "sint (1 :: i32) \<le> sint w - 1" using "1.prems"(2) by simp_all
    note re = quality_row_i32_eq [OF "1.prems"(1,2,4) y one "1.prems"(6) b, of buf]
    show ?thesis
    proof (cases "quality_row_i32 buf w y 1 s")
      case None
      with re True y show ?thesis
        by (simp add: quality_rows_i32.simps [of buf w h y s] case_prod_beta
              quality_rows.simps [of buf "sint w" "sint h" "sint y" "(fst s, sint (snd s))"])
    next
      case (Some s1)
      with re have r1: "quality_row buf (sint w) (sint y) 1 (fst s, sint (snd s)) = Some (fst s1, sint (snd s1))"
        by (cases s1) simp
      from quality_row_cnt [OF r1] "1.prems"(2)
      have c1: "sint (snd s1) = sint (snd s) + (sint w - 2)" by simp
      from sint_succ [OF True] have sy: "sint (y + 1) = sint y + 1" .
      from "1.prems"(4) sy have a1: "1 \<le> sint (y + 1)" by simp
      from y sy have a2: "sint (y + 1) \<le> sint h - 1" by simp
      from c1 "1.prems"(6) w2 have a3: "0 \<le> sint (snd s1)" by simp
      have "sint (snd s1) + (sint h - 1 - sint (y + 1)) * (sint w - 2)
          = sint (snd s) + (sint h - 1 - sint y) * (sint w - 2)"
        unfolding c1 sy by (simp add: algebra_simps)
      with "1.prems"(7) have a4: "sint (snd s1) + (sint h - 1 - sint (y + 1)) * (sint w - 2) < 2 ^ 31"
        by simp
      from "1.IH" [OF True Some "1.prems"(1,2,3) a1 a2 a3 a4] sy
      have "map_option (\<lambda>(a, c). (a, sint c)) (quality_rows_i32 buf w h (y + 1) s1)
          = quality_rows buf (sint w) (sint h) (sint y + 1) (fst s1, sint (snd s1))" by simp
      with Some r1 True y show ?thesis
        by (simp add: quality_rows_i32.simps [of buf w h y s]
              quality_rows.simps [of buf "sint w" "sint h" "sint y" "(fst s, sint (snd s))"])
    qed
  qed
qed

lemma estimate_ascii_quality_i32_eq:
  assumes "sint w * sint h < 2 ^ 31"
  shows "estimate_ascii_quality_i32 buf w h = estimate_ascii_quality buf (sint w) (sint h)"
proof (cases "sint w < 3 \<or> sint h < 3")
  case True
  then show ?thesis by (simp add: estimate_ascii_quality_i32_def estimate_ascii_quality_def)
next
  case False
  then have w: "3 \<le> sint w" and h: "3 \<le> sint h" by simp_all
  have "(sint h - 2) * (sint w - 2) = sint w * sint h - 2 * sint h - 2 * sint w + 4"
    by (simp add: algebra_simps)
  with assms w h have b: "sint (snd (0 :: real, 0 :: i32)) + (sint h - 1 - sint (1 :: i32)) * (sint w - 2) < 2 ^ 31"
    by simp
  have o: "1 \<le> sint (1 :: i32)" "sint (1 :: i32) \<le> sint h - 1" "0 \<le> sint (snd (0 :: real, 0 :: i32))"
    using h by simp_all
  from quality_rows_i32_eq [OF assms w h o b, of buf]
  have e: "map_option (\<lambda>(a, c). (a, sint c)) (quality_rows_i32 buf w h 1 (0, 0))
      = quality_rows buf (sint w) (sint h) 1 (0, 0)" by simp
  show ?thesis
  proof (cases "quality_rows_i32 buf w h 1 (0, 0)")
    case None
    with e False show ?thesis
      by (simp add: estimate_ascii_quality_i32_def estimate_ascii_quality_def)
  next
    case (Some s)
    obtain acc cnt where s: "s = (acc, cnt)" by (cases s) auto
    have z: "(sint cnt = 0) = (cnt = 0)" by (metis sint_0 signed_word_eqI)
    from Some s e have r: "quality_rows buf (sint w) (sint h) 1 (0, 0) = Some (acc, sint cnt)"
      by simp
    from Some s r z False show ?thesis
      by (simp add: estimate_ascii_quality_i32_def estimate_ascii_quality_def)
  qed
qed

section \<open>Sentinel results of the estimators\<close>

text \<open>
  Claim C4, as stated (\<open>estimate_ascii_similarity\<close> returns 0 whenever the buffer's length is
  not \<open>w * h\<close>), fails: the code compares \<open>(int)buf.size()\<close> with the 32-bit product. For
  \<open>w = 641\<close> and \<open>h = 6700417\<close> the product \<open>2 ^ 32 + 1\<close> wraps around to 1, so two equal
  buffers of one character pass the guard and score 1.
\<close>

theorem estimators_sentinel_zero_counterexample:
  "int (length ''a'') \<noteq> sint (641 :: i32) * sint (6700417 :: i32)
   \<and> (641 :: i32) * 6700417 = 1
   \<and> estimate_ascii_similarity ''a'' ''a'' 641 6700417 = Some 1"
proof -
  have "similarity_loop ''a'' ''a'' 1 0 0 = Some 0"
    by (simp add: similarity_loop.simps [of "''a''" "''a''" 1 0 0]
          similarity_loop.simps [of "''a''" "''a''" 1 1 0] elem_at_def)
  moreover have e: "(641 :: i32) * 6700417 = 1" by simp
  ultimately have "estimate_ascii_similarity ''a'' ''a'' 641 6700417 = Some 1"
    unfolding estimate_ascii_similarity_def e by simp
  with e show ?thesis by simp
qed

text \<open>
  Claim C4, amended. \<open>estimate_ascii_quality\<close> returns 0 for every buffer when \<open>w < 3\<close> or
  \<open>h < 3\<close>. \<open>estimate_ascii_similarity\<close> returns 0 when the two buffers differ in length or
  when the buffer's length, converted to \<open>int\<close>, is not the 32-bit product \<open>w * h\<close>; that is
  so in particular when the length is not \<open>w * h\<close> and both the length and \<open>w * h\<close> are in the
  range of \<open>int\<close>. In all these cases the function returns, it does not fail.
\<close>

theorem estimators_sentinel_zero:
  "(sint w < 3 \<or> sint h < 3 \<longrightarrow> estimate_ascii_quality_i32 buf w h = Some 0)
   \<and> (length buf \<noteq> length ref \<or> (word_of_nat (length buf) :: i32) \<noteq> w * h
        \<longrightarrow> estimate_ascii_similarity buf ref w h = Some 0)
   \<and> (int (length buf) < 2 ^ 31 \<and> - (2 ^ 31) \<le> sint w * sint h \<and> sint w * sint h < 2 ^ 31
        \<and> int (length buf) \<noteq> sint w * sint h
        \<longrightarrow> estimate_ascii_similarity buf ref w h = Some 0)"
proof (intro conjI impI)
  assume "sint w < 3 \<or> sint h < 3"
  then show "estimate_ascii_quality_i32 buf w h = Some 0"
    by (simp add: estimate_ascii_quality_i32_def)
next
  assume "length buf \<noteq> length ref \<or> (word_of_nat (length buf) :: i32) \<noteq> w * h"
  then show "estimate_ascii_similarity buf ref w h = Some 0"
    by (simp add: estimate_ascii_similarity_def)
next
  assume a: "int (length buf) < 2 ^ 31 \<and> - (2 ^ 31) \<le> sint w * sint h \<and> sint w * sint h < 2 ^ 31
        \<and> int (length buf) \<noteq> sint w * sint h"
  then have "sint (word_of_nat (length buf) :: i32) = int (length buf)"
    by (simp add: sint_of_nat_small)
  moreover from a have "sint (w * h) = sint w * sint h" by (simp add: sint_mult_nowrap)
  ultimately have "(word_of_nat (length buf) :: i32) \<noteq> w * h" using a by auto
  then show "estimate_ascii_similarity buf ref w h = Some 0"
    by (simp add: estimate_ascii_similarity_def)
qed

theorem estimators_sentinel_zero_witness:
  "sint (2 :: i32) < 3 \<and> estimate_ascii_quality_i32 ''ab'' 2 5 = Some 0
   \<and> length ''ab'' \<noteq> length ''a'' \<and> estimate_ascii_similarity ''ab'' ''a'' 2 5 = Some 0
   \<and> int (length ''ab'') \<noteq> sint (2 :: i32) * sint (5 :: i32)
   \<and> estimate_ascii_similarity ''ab'' ''ab'' 2 5 = Some 0"
  using estimators_sentinel_zero [of 2 5 "''ab''" "''a''"]
    estimators_sentinel_zero [of 2 5 "''ab''" "''ab''"]
  by simp

section \<open>The estimators on well-formed buffers\<close>

text \<open>
  Claim C9, as stated (for every \<open>w \<ge> 3\<close>, \<open>h \<ge> 3\<close> and every buffer of exactly \<open>w * h\<close>
  characters the reads are in bounds), fails: the offsets are computed in 32-bit \<open>int\<close>. For
  \<open>w = 2 ^ 30\<close>, \<open>h = 3\<close> and a buffer of \<open>3 * 2 ^ 30\<close> characters, the first interior cell has
  \<open>off = 2 ^ 30 + 1\<close>, and \<open>off + w\<close> wraps around to a negative index.
\<close>

theorem quality_reads_counterexample:
  "3 \<le> sint (1073741824 :: i32) \<and> 3 \<le> sint (3 :: i32)
   \<and> int (length (replicate 3221225472 CHR ''.'')) = sint (1073741824 :: i32) * sint (3 :: i32)
   \<and> sint ((1 * 1073741824 + 1 :: i32) + 1073741824) < 0
   \<and> gradient_at_i32 (replicate 3221225472 CHR ''.'') 1073741824 (1 * 1073741824 + 1) = None
   \<and> estimate_ascii_quality_i32 (replicate 3221225472 CHR ''.'') 1073741824 3 = None"
proof -
  have a: "int (length (replicate 3221225472 CHR ''.'')) = sint (1073741824 :: i32) * sint (3 :: i32)"
    by (simp only: length_replicate) simp
  have e: "(1 * 1073741824 + 1 :: i32) = 1073741825" by simp
  have b: "sint ((1 * 1073741824 + 1 :: i32) + 1073741824) < 0" by simp
  have c: "3 \<le> sint (1073741824 :: i32)" "3 \<le> sint (3 :: i32)" by simp_all
  have d: "gradient_at_i32 (replicate 3221225472 CHR ''.'') 1073741824 (1 * 1073741824 + 1) = None"
    unfolding e by (rule gradient_at_i32_wraps)
  have f: "estimate_ascii_quality_i32 (replicate 3221225472 CHR ''.'') 1073741824 3 = None"
    by (rule estimate_ascii_quality_i32_wraps)
  from a b c d f show ?thesis by blast
qed

text \<open>
  Claim C9, amended. For \<open>w \<ge> 3\<close>, \<open>h \<ge> 3\<close> with \<open>w * h\<close> in the range of \<open>int\<close> and a buffer
  of exactly \<open>w * h\<close> characters, the four reads of \<open>estimate_ascii_quality\<close> at an interior
  cell (offsets \<open>off - w\<close>, \<open>off - 1\<close>, \<open>off + 1\<close>, \<open>off + w\<close>) are inside the buffer, so the
  gradient there and the estimate as a whole are defined. The function does not check the
  length itself: on an empty buffer with \<open>w = h = 3\<close> it reads outside the buffer.
\<close>

theorem quality_reads_in_bounds:
  "(3 \<le> sint w \<and> 3 \<le> sint h \<and> sint w * sint h < 2 ^ 31 \<and> int (length buf) = sint w * sint h \<longrightarrow>
      (\<forall>x y. 1 \<le> sint y \<and> sint y < sint h - 1 \<and> 1 \<le> sint x \<and> sint x < sint w - 1 \<longrightarrow>
         0 \<le> sint (y * w + x - w) \<and> 0 \<le> sint (y * w + x - 1)
         \<and> sint (y * w + x + 1) < int (length buf) \<and> sint (y * w + x + w) < int (length buf)
         \<and> (\<exists>g. gradient_at_i32 buf w (y * w + x) = Some g))
      \<and> (\<exists>q. estimate_ascii_quality_i32 buf w h = Some q))
   \<and> estimate_ascii_quality_i32 [] 3 3 = None"
proof (intro conjI impI allI)
  assume a: "3 \<le> sint w \<and> 3 \<le> sint h \<and> sint w * sint h < 2 ^ 31 \<and> int (length buf) = sint w * sint h"
  from a estimate_ascii_quality_i32_total [of w h buf]
  show "\<exists>q. estimate_ascii_quality_i32 buf w h = Some q" by auto
  fix x y :: i32
  assume i: "1 \<le> sint y \<and> sint y < sint h - 1 \<and> 1 \<le> sint x \<and> sint x < sint w - 1"
  from i a interior_i32 [of w h y x] have s:
    "sint (y * w + x - 1) = sint y * sint w + sint x - 1"
    "sint (y * w + x + 1) = sint y * sint w + sint x + 1"
    "sint (y * w + x - w) = sint y * sint w + sint x - sint w"
    "sint (y * w + x + w) = sint y * sint w + sint x + sint w"
    by simp_all
  from i interior_offsets [of "sint y" "sint h" "sint x" "sint w"] a
  show "0 \<le> sint (y * w + x - w)" "0 \<le> sint (y * w + x - 1)"
    "sint (y * w + x + 1) < int (length buf)" "sint (y * w + x + w) < int (length buf)"
    unfolding s by simp_all
  from i a gradient_at_i32_total [of w h y x buf]
  show "\<exists>g. gradient_at_i32 buf w (y * w + x) = Some g" by simp
next
  show "estimate_ascii_quality_i32 [] 3 3 = None"
    by (simp add: estimate_ascii_quality_i32_def quality_rows_i32.simps quality_row_i32.simps
          gradient_at_i32_def elem_at_def)
qed

theorem quality_reads_in_bounds_witness:
  "3 \<le> sint (3 :: i32) \<and> sint (3 :: i32) * sint (3 :: i32) < 2 ^ 31
   \<and> int (length ''.........'') = sint (3 :: i32) * sint (3 :: i32)
   \<and> (\<exists>g. gradient_at_i32 ''.........'' 3 (1 * 3 + 1) = Some g)
   \<and> (\<exists>q. estimate_ascii_quality_i32 ''.........'' 3 3 = Some q)
   \<and> estimate_ascii_quality_i32 ''.........'' 3 3 = Some 0"
proof -
  have l: "3 \<le> sint (3 :: i32) \<and> 3 \<le> sint (3 :: i32) \<and> sint (3 :: i32) * sint (3 :: i32) < 2 ^ 31
      \<and> int (length ''.........'') = sint (3 :: i32) * sint (3 :: i32)" by simp
  with quality_reads_in_bounds [of 3 3 "''.........''"]
  have a: "\<forall>x y :: i32. 1 \<le> sint y \<and> sint y < sint (3 :: i32) - 1 \<and> 1 \<le> sint x \<and> sint x < sint (3 :: i32) - 1 \<longrightarrow>
         (\<exists>g. gradient_at_i32 ''.........'' 3 (y * 3 + x) = Some g)"
    and b: "\<exists>q. estimate_ascii_quality_i32 ''.........'' 3 3 = Some q"
    by blast+
  from a [rule_format, of 1 1] have c: "\<exists>g. gradient_at_i32 ''.........'' 3 (1 * 3 + 1) = Some g" by simp
  have d: "estimate_ascii_quality_i32 ''.........'' 3 3 = Some 0"
    by (simp add: estimate_ascii_quality_i32_def quality_rows_i32.simps quality_row_i32.simps
          gradient_at_i32_def elem_at_def std_clamp_def)
  from l b c d show ?thesis by blast
qed

text \<open>
  Claim C5, as stated (a buffer compared with itself always gives 1.0), fails: with
  \<open>w = h = 0\<close> the empty buffer gives 0, and so does a buffer whose length is not \<open>w * h\<close>.
\<close>

theorem self_similarity_counterexample:
  "estimate_ascii_similarity [] [] 0 0 = Some 0
   \<and> estimate_ascii_similarity [] [] 0 0 \<noteq> Some 1
   \<and> estimate_ascii_similarity ''a'' ''a'' 2 2 = Some 0
   \<and> estimate_ascii_similarity ''a'' ''a'' 2 2 \<noteq> Some 1"
  by (simp add: estimate_ascii_similarity_def similarity_loop.simps)

text \<open>
  Claim C5, amended. \<open>estimate_ascii_similarity\<close> of a buffer with itself returns 1.0 when the
  buffer's length, converted to \<open>int\<close>, is the 32-bit product \<open>w * h\<close> and that product is not
  0, and it returns 0 otherwise. In particular it returns 1.0 for every non-empty buffer of
  fewer than \<open>2 ^ 32\<close> characters whose length is \<open>w * h\<close>.
\<close>

theorem self_similarity:
  "estimate_ascii_similarity buf buf w h =
     Some (if word_of_nat (length buf) = w * h \<and> w * h \<noteq> 0 then 1 else 0)
   \<and> (buf \<noteq> [] \<and> int (length buf) < 2 ^ 32 \<and> int (length buf) = sint w * sint h
        \<longrightarrow> estimate_ascii_similarity buf buf w h = Some 1)"
proof (intro conjI impI)
  show "estimate_ascii_similarity buf buf w h =
     Some (if word_of_nat (length buf) = w * h \<and> w * h \<noteq> 0 then 1 else 0)"
    by (rule estimate_ascii_similarity_self)
next
  assume a: "buf \<noteq> [] \<and> int (length buf) < 2 ^ 32 \<and> int (length buf) = sint w * sint h"
  then have e: "word_of_nat (length buf) = w * h" by (simp add: word_mult_of_product)
  from a have "(word_of_nat (length buf) :: i32) \<noteq> 0" by (intro word_of_nat_nonzero) simp_all
  with e show "estimate_ascii_similarity buf buf w h = Some 1"
    by (simp add: estimate_ascii_similarity_self)
qed

theorem self_similarity_witness:
  "''.#'' \<noteq> [] \<and> int (length ''.#'') = sint (2 :: i32) * sint (1 :: i32)
   \<and> estimate_ascii_similarity ''.#'' ''.#'' 2 1 = Some 1
   \<and> estimate_ascii_similarity ''a'' ''a'' 641 6700417 = Some 1"
proof -
  have e: "(641 :: i32) * 6700417 = 1" by simp
  from self_similarity [of "''a''" 641 6700417]
  have "estimate_ascii_similarity ''a'' ''a'' 641 6700417 = Some 1"
    unfolding e by simp
  with self_similarity [of "''.#''" 2 1] show ?thesis by simp
qed

section \<open>The controller never regresses on ordered scores\<close>

lemma dle_refl: "a \<noteq> NaN \<Longrightarrow> dle a a"
  by (cases a) simp_all

lemma dle_not_NaN: "dle a b \<Longrightarrow> a \<noteq> NaN \<and> b \<noteq> NaN"
  by (cases a; cases b) simp_all

lemma dle_dlt_trans: "dle a b \<Longrightarrow> dlt b c \<Longrightarrow> dle a c"
  by (cases a; cases b; cases c) simp_all

lemma dle_trans: "dle a b \<Longrightarrow> dle b c \<Longrightarrow> dle a c"
  by (cases a; cases b; cases c) simp_all

lemma dlt_imp_dle: "dlt a b \<Longrightarrow> dle a b"
  by (cases a; cases b) simp_all

lemma try_update_inv:
  assumes "cand_score best = evaluate (cand_p best)" and "dle base (cand_score best)"
  shows "cand_score (try_update evaluate best p) = evaluate (cand_p (try_update evaluate best p))
         \<and> dle base (cand_score (try_update evaluate best p))"
  using assms by (auto simp add: try_update_def Let_def intro: dle_dlt_trans)

lemma foldl_try_update_inv:
  "cand_score best = evaluate (cand_p best) \<Longrightarrow> dle base (cand_score best) \<Longrightarrow>
   cand_score (foldl (try_update evaluate) best ps) = evaluate (cand_p (foldl (try_update evaluate) best ps))
   \<and> dle base (cand_score (foldl (try_update evaluate) best ps))"
proof (induction ps arbitrary: best)
  case Nil
  then show ?case by simp
next
  case (Cons q ps)
  from try_update_inv [where best = best and evaluate = evaluate and p = q and base = base] Cons.prems
  have a: "cand_score (try_update evaluate best q) = evaluate (cand_p (try_update evaluate best q))"
    and b: "dle base (cand_score (try_update evaluate best q))" by auto
  from Cons.IH [where best = "try_update evaluate best q"] a b show ?case by auto
qed

lemma suggest_step_K_foldl:
  "next_pv (suggest_step_K current evaluate d) =
   cand_p (foldl (try_update evaluate)
     \<lparr>cand_p = current, cand_score = evaluate current, cand_mode = ''K''\<rparr> (K_probes current d))"
  by (simp add: suggest_step_K_def K_probes_def Let_def)

lemma suggest_step_K_ge:
  assumes "evaluate current \<noteq> NaN"
  shows "dle (evaluate current) (evaluate (next_pv (suggest_step_K current evaluate d)))"
  using foldl_try_update_inv
    [of "\<lparr>cand_p = current, cand_score = evaluate current, cand_mode = ''K''\<rparr>" evaluate
        "evaluate current" "K_probes current d"]
    dle_refl [OF assms]
  by (auto simp add: suggest_step_K_foldl)

lemma try_pair_inv:
  assumes "fst st = evaluate (next_pv (snd st))" and "dle base (fst st)"
  shows "fst (try_pair current evaluate fa fb st) =
           evaluate (next_pv (snd (try_pair current evaluate fa fb st)))
         \<and> dle base (fst (try_pair current evaluate fa fb st))"
  using assms by (cases st) (auto simp add: try_pair_def Let_def intro: dle_dlt_trans)

lemma suggest_step_KH_ge:
  assumes "evaluate (next_pv (suggest_step_K current evaluate d)) \<noteq> NaN"
  shows "dle (evaluate (next_pv (suggest_step_K current evaluate d)))
             (evaluate (next_pv (suggest_step_KH current evaluate d)))"
proof -
  define base where "base = evaluate (next_pv (suggest_step_K current evaluate d))"
  define st0 where "st0 = (base, suggest_step_K current evaluate d)"
  define st1 where "st1 = try_pair current evaluate
                 (\<lambda>p. p\<lparr>resolution_scale := resolution_scale p + d_scale d\<rparr>)
                 (\<lambda>p. p\<lparr>samples_per_pixel := samples_per_pixel p + d_spp d\<rparr>) st0"
  define st2 where "st2 = try_pair current evaluate
                 (\<lambda>p. p\<lparr>gamma := gamma p + d_gamma d\<rparr>)
                 (\<lambda>p. p\<lparr>normal_smooth := normal_smooth p + d_ns d\<rparr>) st1"
  define st3 where "st3 = try_pair current evaluate
                 (\<lambda>p. p\<lparr>resolution_scale := resolution_scale p - d_scale d\<rparr>)
                 (\<lambda>p. p\<lparr>gamma := gamma p + d_gamma d\<rparr>) st2"
  have r: "suggest_step_KH current evaluate d = snd st3"
    by (simp add: suggest_step_KH_def Let_def st0_def st1_def st2_def st3_def base_def)
  have i0: "fst st0 = evaluate (next_pv (snd st0))" by (simp add: st0_def base_def)
  have l0: "dle base (fst st0)" using assms by (simp add: st0_def base_def dle_refl)
  from try_pair_inv [where st = st0 and evaluate = evaluate and current = current and base = base
      and fa = "\<lambda>p. p\<lparr>resolution_scale := resolution_scale p + d_scale d\<rparr>"
      and fb = "\<lambda>p. p\<lparr>samples_per_pixel := samples_per_pixel p + d_spp d\<rparr>"] i0 l0
  have i1: "fst st1 = evaluate (next_pv (snd st1))" and l1: "dle base (fst st1)"
    by (auto simp add: st1_def)
  from try_pair_inv [where st = st1 and evaluate = evaluate and current = current and base = base
      and fa = "\<lambda>p. p\<lparr>gamma := gamma p + d_gamma d\<rparr>"
      and fb = "\<lambda>p. p\<lparr>normal_smooth := normal_smooth p + d_ns d\<rparr>"] i1 l1
  have i2: "fst st2 = evaluate (next_pv (snd st2))" and l2: "dle base (fst st2)"
    by (auto simp add: st2_def)
  from try_pair_inv [where st = st2 and evaluate = evaluate and current = current and base = base
      and fa = "\<lambda>p. p\<lparr>resolution_scale := resolution_scale p - d_scale d\<rparr>"
      and fb = "\<lambda>p. p\<lparr>gamma := gamma p + d_gamma d\<rparr>"] i2 l2
  have i3: "fst st3 = evaluate (next_pv (snd st3))" and l3: "dle base (fst st3)"
    by (auto simp add: st3_def)
  from l3 i3 show ?thesis by (auto simp add: r base_def)
qed

lemma in_domain_pv_default: "in_domain pv_default"
  by (simp add: in_domain_def pv_default_def)

lemma suggest_step_K_nan: "next_pv (suggest_step_K p nan_score d) = p"
  by (simp add: suggest_step_K_def try_update_def nan_score_def Let_def)

lemma suggest_step_KH_nan: "next_pv (suggest_step_KH p nan_score d) = p"
  by (simp add: suggest_step_KH_def try_pair_def suggest_step_K_nan nan_score_def Let_def)

text \<open>
  Claim C1, as stated (for every deterministic scoring function), fails: a scoring function
  may return NaN, as \<open>evaluate_score\<close> does under a NaN weight. Then no comparison succeeds,
  both steps return the vector they were given, and its score is not \<open>>=\<close> itself.
\<close>

theorem controller_non_regression_counterexample:
  "in_domain pv_default
   \<and> next_pv (suggest_step_K pv_default nan_score default_deltas) = pv_default
   \<and> next_pv (suggest_step_KH pv_default nan_score default_deltas) = pv_default
   \<and> \<not> dle (nan_score pv_default) (nan_score (next_pv (suggest_step_K pv_default nan_score default_deltas)))
   \<and> \<not> dle (nan_score (next_pv (suggest_step_K pv_default nan_score default_deltas)))
            (nan_score (next_pv (suggest_step_KH pv_default nan_score default_deltas)))"
  by (simp add: in_domain_pv_default suggest_step_K_nan suggest_step_KH_nan) (simp add: nan_score_def)

text \<open>
  Claim C1, amended. For every in-domain parameter vector \<open>p\<close>, every scoring function
  \<open>evaluate\<close> (a function, so two calls on one vector agree) whose score of \<open>p\<close> is not NaN, and
  every choice of probe deltas, the vector that the K step returns scores at least
  \<open>evaluate p\<close>, and the vector that the K+H step returns scores at least as much as the one
  the K step returns on the same inputs. Scores may be infinite, and other vectors may score
  NaN. The proof rests on the comparisons of scores alone, not on which vectors are probed.
\<close>

theorem controller_non_regression:
  assumes "in_domain p" and "evaluate p \<noteq> NaN"
  shows "dle (evaluate p) (evaluate (next_pv (suggest_step_K p evaluate d)))
       \<and> dle (evaluate (next_pv (suggest_step_K p evaluate d)))
             (evaluate (next_pv (suggest_step_KH p evaluate d)))"
proof -
  from suggest_step_K_ge [where evaluate = evaluate and current = p and d = d] assms(2)
  have k: "dle (evaluate p) (evaluate (next_pv (suggest_step_K p evaluate d)))" by simp
  from dle_not_NaN [OF k] have "evaluate (next_pv (suggest_step_K p evaluate d)) \<noteq> NaN" by simp
  with suggest_step_KH_ge [where evaluate = evaluate and current = p and d = d] k
  show ?thesis by simp
qed

theorem controller_non_regression_witness:
  "in_domain pv_default \<and> ramp_score pv_default = Fin 12
   \<and> next_pv (suggest_step_K pv_default ramp_score default_deltas) = pv_default\<lparr>ramp_size := 14\<rparr>
   \<and> dle (ramp_score pv_default)
         (ramp_score (next_pv (suggest_step_K pv_default ramp_score default_deltas)))
   \<and> dle (ramp_score (next_pv (suggest_step_K pv_default ramp_score default_deltas)))
         (ramp_score (next_pv (suggest_step_KH pv_default ramp_score default_deltas)))"
proof -
  have s: "ramp_score pv_default = Fin 12" by (simp add: ramp_score_def pv_default_def)
  then have n: "ramp_score pv_default \<noteq> NaN" by simp
  have "next_pv (suggest_step_K pv_default ramp_score default_deltas) = pv_default\<lparr>ramp_size := 14\<rparr>"
    by (simp add: suggest_step_K_def try_update_def clamp_params_def std_clamp_def default_deltas_def
          pv_default_def ramp_score_def Let_def)
  with controller_non_regression [where p = pv_default and evaluate = ramp_score and d = default_deltas]
    in_domain_pv_default s n
  show ?thesis by blast
qed

section \<open>The radii after the command line\<close>

lemma parse_args_clamp_torus_R:
  "rp_torus_R (parse_args_clamp p) = dmax (Fin 0.1) (rp_torus_R p)"
  by (simp add: parse_args_clamp_def Let_def)

lemma parse_args_clamp_torus_r:
  "rp_torus_r (parse_args_clamp p) =
     (if dle (dmax (Fin 0.1) (rp_torus_R p)) (dmax (Fin 0.05) (rp_torus_r p))
      then dmax (Fin 0.05) (dmul (dmax (Fin 0.1) (rp_torus_R p)) (Fin 0.4))
      else dmax (Fin 0.05) (rp_torus_r p))"
  by (simp add: parse_args_clamp_def Let_def)

text \<open>
  Unless both radii are \<open>+\<infinity>\<close> when the loop ends, \<open>0 < r < R\<close> holds afterwards: NaN and
  \<open>-\<infinity>\<close> are replaced by the lower bounds \<open>0.1\<close> and \<open>0.05\<close>.
\<close>

lemma parse_args_clamp_radii:
  assumes "\<not> (rp_torus_R p = PosInf \<and> rp_torus_r p = PosInf)"
  shows "dlt (Fin 0) (rp_torus_r (parse_args_clamp p))
       \<and> dlt (rp_torus_r (parse_args_clamp p)) (rp_torus_R (parse_args_clamp p))"
  unfolding parse_args_clamp_torus_R parse_args_clamp_torus_r
  using assms by (cases "rp_torus_R p"; cases "rp_torus_r p") (auto simp add: dmax_def)

text \<open>
  Claim C8. After \<open>parse_args\<close> the radii should satisfy \<open>0 < r < R\<close> for every input, as the
  comment \<open>Ensure R > r > 0\<close> in \<open>parse_args\<close> says. \<open>std::stod\<close> reads \<open>inf\<close> as infinity; with
  both radii infinite every \<open>std::max\<close> keeps the infinity, the replacement \<open>R * 0.4\<close> is
  infinite too, and \<open>parse_args\<close> returns with \<open>r = R\<close>.
\<close>

theorem parse_args_radii_infinite:
  "map_option rp_torus_R
     (parse_args stod_demo (\<lambda>s. None) [''torus'', ''--torus-R'', ''inf'', ''--torus-r'', ''inf'']
        default_params) = Some PosInf
   \<and> map_option rp_torus_r
     (parse_args stod_demo (\<lambda>s. None) [''torus'', ''--torus-R'', ''inf'', ''--torus-r'', ''inf'']
        default_params) = Some PosInf
   \<and> map_option (\<lambda>q. dlt (rp_torus_r q) (rp_torus_R q))
     (parse_args stod_demo (\<lambda>s. None) [''torus'', ''--torus-R'', ''inf'', ''--torus-r'', ''inf'']
        default_params) = Some False"
proof -
  define q where "q = default_params\<lparr>rp_torus_R := PosInf, rp_torus_r := PosInf\<rparr>"
  have "parse_loop stod_demo (\<lambda>s. None) (tl [''torus'', ''--torus-R'', ''inf'', ''--torus-r'', ''inf''])
             default_params = Some q"
    by (simp add: stod_demo_def q_def)
  then have a: "parse_args stod_demo (\<lambda>s. None) [''torus'', ''--torus-R'', ''inf'', ''--torus-r'', ''inf'']
        default_params = Some (parse_args_clamp q)"
    by (simp add: parse_args_def)
  have "rp_torus_R (parse_args_clamp q) = PosInf" "rp_torus_r (parse_args_clamp q) = PosInf"
    by (simp_all add: parse_args_clamp_torus_R parse_args_clamp_torus_r q_def dmax_def)
  with a show ?thesis by simp
qed

text \<open>
  Finite radii are corrected as the comment says: \<open>--torus-R 1 --torus-r 5\<close> leaves \<open>R = 1\<close>
  and \<open>r = 0.4\<close>.
\<close>

lemma parse_args_radii_example:
  "map_option rp_torus_r
     (parse_args stod_demo (\<lambda>s. None) [''torus'', ''--torus-R'', ''1'', ''--torus-r'', ''5'']
        default_params) = Some (Fin (2 / 5))"
proof -
  define q where "q = default_params\<lparr>rp_torus_R := Fin 1, rp_torus_r := Fin 5\<rparr>"
  have "parse_loop stod_demo (\<lambda>s. None) (tl [''torus'', ''--torus-R'', ''1'', ''--torus-r'', ''5''])
             default_params = Some q"
    by (simp add: stod_demo_def q_def)
  then have a: "parse_args stod_demo (\<lambda>s. None) [''torus'', ''--torus-R'', ''1'', ''--torus-r'', ''5'']
        default_params = Some (parse_args_clamp q)"
    by (simp add: parse_args_def)
  have "rp_torus_r (parse_args_clamp q) = Fin (2 / 5)"
    by (simp_all add: parse_args_clamp_torus_R parse_args_clamp_torus_r q_def dmax_def)
  with a show ?thesis by simp
qed

end
